theory Spec2Isabelle
  imports Main "HOL-Library.Multiset" "HOL-Library.Sublist"
begin

section \<open>Game nodes and the geographic tables (utils/graph_builder.py)\<close>

text \<open>
  A \<open>GameNode\<close> carries the five attributes the constructor stores. Dates are day
  numbers (the cleaned schedule holds midnight timestamps, so a difference of one day is a
  difference of 1). \<open>city_group\<close> defaults to \<open>None\<close> in the constructor.
\<close>

record GameNode =
  team :: string
  date :: int
  opponent :: string
  venue :: string
  city_group :: "string option"

text \<open>
  \<open>GameNode.__eq__\<close> (and \<open>__hash__\<close>) compare team, date, opponent and venue only;
  \<open>city_group\<close> takes no part. Every dictionary of the graph is keyed by this equality.
\<close>

definition node_key :: "GameNode \<Rightarrow> string \<times> int \<times> string \<times> string" where
  "node_key n = (team n, date n, opponent n, venue n)"

definition node_eq :: "GameNode \<Rightarrow> GameNode \<Rightarrow> bool" where
  "node_eq a b \<longleftrightarrow> node_key a = node_key b"

definition NORTHBOUND :: "(string \<times> string list) list" where
  "NORTHBOUND =
     [(''Wizards'', [''76ers'', ''Knicks'', ''Nets'', ''Celtics'']),
      (''76ers'', [''Knicks'', ''Nets'', ''Celtics'']),
      (''Knicks'', [''Celtics'']),
      (''Nets'', [''Celtics''])]"

definition SOUTHBOUND :: "(string \<times> string list) list" where
  "SOUTHBOUND =
     [(''Celtics'', [''Knicks'', ''Nets'', ''76ers'', ''Wizards'']),
      (''Knicks'', [''76ers'', ''Wizards'']),
      (''Nets'', [''76ers'', ''Wizards'']),
      (''76ers'', [''Wizards''])]"

text \<open>\<open>d.get(k, [])\<close> on a dictionary written as an association list.\<close>

definition dict_get_list :: "(string \<times> string list) list \<Rightarrow> string \<Rightarrow> string list" where
  "dict_get_list d k = (case map_of d k of None \<Rightarrow> [] | Some v \<Rightarrow> v)"

definition get_team_geographic_order :: "(string \<times> nat) list" where
  "get_team_geographic_order =
     [(''Wizards'', 1), (''76ers'', 2), (''Knicks'', 3), (''Nets'', 3), (''Celtics'', 4)]"

definition geo_order :: "string \<Rightarrow> nat option" where
  "geo_order = map_of get_team_geographic_order"

definition is_consecutive_night :: "int \<Rightarrow> int \<Rightarrow> bool" where
  "is_consecutive_night date1 date2 \<longleftrightarrow> date2 - date1 = 1"

definition is_valid_geographic_transition :: "GameNode \<Rightarrow> GameNode \<Rightarrow> string \<Rightarrow> bool" where
  "is_valid_geographic_transition from_node to_node direction =
     (if direction = ''northbound'' then
        (if city_group from_node = Some ''NYC'' \<and> city_group to_node = Some ''NYC''
            \<and> team from_node \<noteq> team to_node
         then True
         else team to_node \<in> set (dict_get_list NORTHBOUND (team from_node)))
      else if direction = ''southbound'' then
        (if city_group from_node = Some ''NYC'' \<and> city_group to_node = Some ''NYC''
            \<and> team from_node \<noteq> team to_node
         then True
         else team to_node \<in> set (dict_get_list SOUTHBOUND (team from_node)))
      else False)"

section \<open>The directed graph (networkx.DiGraph as the builder uses it)\<close>

text \<open>
  A \<open>DiGraph\<close> keeps its nodes in a dictionary and, per node, a dictionary from successor
  to the attributes of the edge. Both keep insertion order, and an edge \<open>u \<rightarrow> v\<close> exists at
  most once: adding it again updates the attributes of the edge that is there. The model
  keeps the node keys in insertion order and one ordered association list from the pair
  \<open>(u, v)\<close> to the value of the edge's \<open>direction\<close> attribute, the only attribute the
  program sets. Restricted to one \<open>u\<close>, that list has the order of \<open>u\<close>'s successor dictionary.
\<close>

record DiGraph =
  nodes_of :: "GameNode list"
  edges_of :: "((GameNode \<times> GameNode) \<times> string) list"

definition empty_graph :: DiGraph where
  "empty_graph = \<lparr>nodes_of = [], edges_of = []\<rparr>"

definition has_node :: "DiGraph \<Rightarrow> GameNode \<Rightarrow> bool" where
  "has_node G n \<longleftrightarrow> (\<exists>m \<in> set (nodes_of G). node_eq m n)"

definition add_node :: "DiGraph \<Rightarrow> GameNode \<Rightarrow> DiGraph" where
  "add_node G n = (if has_node G n then G else G\<lparr>nodes_of := nodes_of G @ [n]\<rparr>)"

fun set_direction ::
  "GameNode \<Rightarrow> GameNode \<Rightarrow> string \<Rightarrow> ((GameNode \<times> GameNode) \<times> string) list
     \<Rightarrow> ((GameNode \<times> GameNode) \<times> string) list" where
  "set_direction u v d [] = [((u, v), d)]"
| "set_direction u v d (((a, b), e) # es) =
     (if node_eq a u \<and> node_eq b v then ((a, b), d) # es
      else ((a, b), e) # set_direction u v d es)"

definition add_edge :: "DiGraph \<Rightarrow> GameNode \<Rightarrow> GameNode \<Rightarrow> string \<Rightarrow> DiGraph" where
  "add_edge G u v d =
     (let G' = add_node (add_node G u) v
      in G'\<lparr>edges_of := set_direction u v d (edges_of G')\<rparr>)"

text \<open>
  \<open>graph.successors(u)\<close> raises for a node that is not in the graph; the searches call it
  only for nodes of the graph (a start node from \<open>graph.nodes()\<close>, or a successor), where
  it yields the keys of \<open>u\<close>'s successor dictionary. For any other node the model yields the
  empty list. An entry of the edge list keeps the source node as it was passed to
  \<open>add_edge\<close>, where networkx keeps the node stored first under that key; the two are
  equal as nodes, and the source of an entry is only ever compared by that equality.
\<close>

definition successors :: "DiGraph \<Rightarrow> GameNode \<Rightarrow> GameNode list" where
  "successors G u = map (snd \<circ> fst) (filter (\<lambda>e. node_eq (fst (fst e)) u) (edges_of G))"

text \<open>\<open>graph.edges[u, v].get('direction')\<close> for an edge that exists.\<close>

definition edge_direction :: "DiGraph \<Rightarrow> GameNode \<Rightarrow> GameNode \<Rightarrow> string option" where
  "edge_direction G u v =
     map_option snd (find (\<lambda>e. node_eq (fst (fst e)) u \<and> node_eq (snd (fst e)) v) (edges_of G))"

definition number_of_nodes :: "DiGraph \<Rightarrow> nat" where
  "number_of_nodes G = length (nodes_of G)"

definition number_of_edges :: "DiGraph \<Rightarrow> nat" where
  "number_of_edges G = length (edges_of G)"

section \<open>Building the graph\<close>

text \<open>A row of the cleaned schedule, with the columns \<open>build_game_graph\<close> reads.\<close>

record schedule_row =
  Home :: string
  Game_Date :: int
  Visitor :: string
  Arena :: string
  row_city_group :: string

definition node_of_row :: "schedule_row \<Rightarrow> GameNode" where
  "node_of_row row =
     \<lparr>team = Home row, date = Game_Date row, opponent = Visitor row, venue = Arena row,
      city_group = Some (row_city_group row)\<rparr>"

text \<open>The body of the two nested loops of \<open>add_edges_to_graph\<close>.\<close>

definition add_edges_step :: "GameNode \<Rightarrow> GameNode \<Rightarrow> DiGraph \<Rightarrow> DiGraph" where
  "add_edges_step from_node to_node graph =
     (if node_eq from_node to_node then graph
      else if \<not> is_consecutive_night (date from_node) (date to_node) then graph
      else if team from_node = team to_node then graph
      else
        (let g1 = (if is_valid_geographic_transition from_node to_node ''northbound''
                   then add_edge graph from_node to_node ''northbound'' else graph)
         in (if is_valid_geographic_transition from_node to_node ''southbound''
             then add_edge g1 from_node to_node ''southbound'' else g1)))"

definition add_edges_to_graph :: "DiGraph \<Rightarrow> GameNode list \<Rightarrow> DiGraph" where
  "add_edges_to_graph graph nodes =
     fold (\<lambda>from_node. fold (add_edges_step from_node) nodes) nodes graph"

definition build_game_graph :: "schedule_row list \<Rightarrow> DiGraph" where
  "build_game_graph cleaned_df =
     (let nodes = map node_of_row cleaned_df
      in add_edges_to_graph (fold (\<lambda>n G. add_node G n) nodes empty_graph) nodes)"

section \<open>The trip search (nba_trip_planner.py)\<close>

type_synonym trip = "GameNode list"

text \<open>
  The nested \<open>dfs_northbound\<close> appends to the list \<open>trips\<close> of the enclosing call; the
  model returns what one call appends, in the order of appending. The path grows by one at
  every call and the recursion stops at five nodes.
\<close>

function dfs_northbound ::
  "DiGraph \<Rightarrow> GameNode \<Rightarrow> string set \<Rightarrow> trip \<Rightarrow> trip list" where
  "dfs_northbound graph current_node visited_teams path =
     (if 3 \<le> length (path @ [current_node]) \<and> length (path @ [current_node]) \<le> 5
         \<and> ''Wizards'' \<in> visited_teams \<union> {team current_node}
      then [path @ [current_node]] else [])
     @ (if length (path @ [current_node]) < 5
        then concat (map (\<lambda>neighbor.
               if edge_direction graph current_node neighbor = Some ''northbound''
               then (if team neighbor \<notin> visited_teams \<union> {team current_node}
                     then dfs_northbound graph neighbor
                            (visited_teams \<union> {team current_node}) (path @ [current_node])
                     else [])
               else [])
             (successors graph current_node))
        else [])"
  by pat_completeness auto
termination
  by (relation "measure (\<lambda>(graph, current_node, visited_teams, path). 5 - length path)") auto

definition find_northbound_trips :: "DiGraph \<Rightarrow> GameNode \<Rightarrow> trip list" where
  "find_northbound_trips graph wizards_game = dfs_northbound graph wizards_game {} []"

function dfs_southbound ::
  "DiGraph \<Rightarrow> GameNode \<Rightarrow> string set \<Rightarrow> trip \<Rightarrow> trip list" where
  "dfs_southbound graph current_node visited_teams path =
     (if team current_node = ''Wizards''
         \<and> 3 \<le> length (path @ [current_node]) \<and> length (path @ [current_node]) \<le> 5
      then [path @ [current_node]] else [])
     @ (if length (path @ [current_node]) < 5
        then concat (map (\<lambda>neighbor.
               if edge_direction graph current_node neighbor = Some ''southbound''
               then (if team neighbor \<notin> visited_teams \<union> {team current_node}
                     then dfs_southbound graph neighbor
                            (visited_teams \<union> {team current_node}) (path @ [current_node])
                     else [])
               else [])
             (successors graph current_node))
        else [])"
  by pat_completeness auto
termination
  by (relation "measure (\<lambda>(graph, current_node, visited_teams, path). 5 - length path)") auto

text \<open>The southbound search starts from every node that is not a Wizards game; the
  Wizards game it is called for is not used.\<close>

definition find_southbound_trips :: "DiGraph \<Rightarrow> GameNode \<Rightarrow> trip list" where
  "find_southbound_trips graph wizards_game =
     concat (map (\<lambda>start_node.
               if team start_node \<noteq> ''Wizards'' then dfs_southbound graph start_node {} []
               else [])
             (nodes_of graph))"

definition find_all_valid_trips :: "DiGraph \<Rightarrow> trip list" where
  "find_all_valid_trips graph =
     concat (map (\<lambda>wizards_game.
               find_northbound_trips graph wizards_game
               @ find_southbound_trips graph wizards_game)
             (filter (\<lambda>node. team node = ''Wizards'') (nodes_of graph)))"

section \<open>Ranking\<close>

datatype error = KeyError string

text \<open>The loop of \<open>calculate_travel_efficiency\<close> over \<open>i = 1 .. len(trip) - 1\<close>: it looks up
  the rank of \<open>trip[i-1]\<close>, then of \<open>trip[i]\<close>; a team that is not a key of \<open>geo_order\<close>
  raises \<open>KeyError\<close>.\<close>

fun count_jumps :: "trip \<Rightarrow> nat \<Rightarrow> error + nat" where
  "count_jumps (prev_node # curr_node # rest) jumps =
     (case geo_order (team prev_node) of
        None \<Rightarrow> Inl (KeyError (team prev_node))
      | Some prev_order \<Rightarrow>
          (case geo_order (team curr_node) of
             None \<Rightarrow> Inl (KeyError (team curr_node))
           | Some curr_order \<Rightarrow>
               count_jumps (curr_node # rest)
                 (if prev_order \<noteq> curr_order then jumps + 1 else jumps)))"
| "count_jumps _ jumps = Inr jumps"

definition calculate_travel_efficiency :: "trip \<Rightarrow> error + nat" where
  "calculate_travel_efficiency trip =
     (if length trip \<le> 1 then Inr 0 else count_jumps trip 0)"

definition trip_key :: "trip \<Rightarrow> (string \<times> int) list" where
  "trip_key trip = map (\<lambda>node. (team node, date node)) trip"

text \<open>The deduplication loop, with its two variables \<open>seen\<close> and \<open>unique_trips\<close>.\<close>

fun unique_loop :: "trip list \<Rightarrow> (string \<times> int) list set \<Rightarrow> trip list \<Rightarrow> trip list" where
  "unique_loop [] seen unique_trips = unique_trips"
| "unique_loop (trip # trips) seen unique_trips =
     (if trip_key trip \<notin> seen
      then unique_loop trips (insert (trip_key trip) seen) (unique_trips @ [trip])
      else unique_loop trips seen unique_trips)"

text \<open>\<open>trips_by_length\<close> is a dictionary in insertion order: an association list with
  one entry per length.\<close>

fun append_to_group :: "nat \<Rightarrow> trip \<Rightarrow> (nat \<times> trip list) list \<Rightarrow> (nat \<times> trip list) list" where
  "append_to_group n t [] = [(n, [t])]"
| "append_to_group n t ((k, g) # d) =
     (if k = n then (k, g @ [t]) # d else (k, g) # append_to_group n t d)"

definition group_by_length :: "trip list \<Rightarrow> (nat \<times> trip list) list" where
  "group_by_length unique_trips =
     fold (\<lambda>trip d. append_to_group (length trip) trip d) unique_trips []"

text \<open>\<open>list.sort(key=...)\<close> first calls the key function on every element, in order (an
  exception leaves the sort), then sorts stably by the keys.\<close>

fun efficiency_keys :: "trip list \<Rightarrow> error + nat list" where
  "efficiency_keys [] = Inr []"
| "efficiency_keys (t # ts) =
     (case calculate_travel_efficiency t of
        Inl e \<Rightarrow> Inl e
      | Inr k \<Rightarrow> (case efficiency_keys ts of Inl e \<Rightarrow> Inl e | Inr ks \<Rightarrow> Inr (k # ks)))"

definition sort_by_efficiency :: "trip list \<Rightarrow> error + trip list" where
  "sort_by_efficiency g =
     (case efficiency_keys g of
        Inl e \<Rightarrow> Inl e
      | Inr ks \<Rightarrow> Inr (map snd (sort_key fst (zip ks g))))"

fun sort_groups :: "(nat \<times> trip list) list \<Rightarrow> error + (nat \<times> trip list) list" where
  "sort_groups [] = Inr []"
| "sort_groups ((n, g) # d) =
     (case sort_by_efficiency g of
        Inl e \<Rightarrow> Inl e
      | Inr g' \<Rightarrow> (case sort_groups d of Inl e \<Rightarrow> Inl e | Inr d' \<Rightarrow> Inr ((n, g') # d')))"

definition rank_trips :: "trip list \<Rightarrow> error + (nat \<times> trip list) list" where
  "rank_trips trips =
     (if trips = [] then Inr []
      else sort_groups (group_by_length (unique_loop trips {} [])))"

section \<open>What the ingestion hands over (utils/data_processor.py)\<close>

text \<open>\<open>filter_target_teams\<close> keeps the home games of five teams, and
  \<open>add_geographic_info\<close> derives \<open>city_group\<close> from the home team.\<close>

definition target_teams :: "string list" where
  "target_teams = [''Wizards'', ''76ers'', ''Knicks'', ''Nets'', ''Celtics'']"

definition city_group_of :: "string \<Rightarrow> string" where
  "city_group_of x = (if x \<in> set [''Knicks'', ''Nets''] then ''NYC'' else x)"

definition well_formed_row :: "schedule_row \<Rightarrow> bool" where
  "well_formed_row row \<longleftrightarrow>
     Home row \<in> set target_teams \<and> row_city_group row = city_group_of (Home row)"

section \<open>Notions used to state the properties\<close>

text \<open>Every dictionary of a \<open>DiGraph\<close> has pairwise different keys under the nodes'
  equality.\<close>

definition digraph_keys_distinct :: "DiGraph \<Rightarrow> bool" where
  "digraph_keys_distinct G \<longleftrightarrow>
     distinct (map node_key (nodes_of G))
     \<and> distinct (map (\<lambda>e. (node_key (fst (fst e)), node_key (snd (fst e)))) (edges_of G))"

text \<open>The three conditions under which \<open>add_edges_to_graph\<close> calls \<open>add_edge\<close>.\<close>

definition edge_admitted :: "GameNode \<Rightarrow> GameNode \<Rightarrow> bool" where
  "edge_admitted a b \<longleftrightarrow>
     is_consecutive_night (date a) (date b) \<and> team a \<noteq> team b
     \<and> (is_valid_geographic_transition a b ''northbound''
        \<or> is_valid_geographic_transition a b ''southbound'')"

text \<open>A path follows edges of the graph.\<close>

definition linked :: "DiGraph \<Rightarrow> trip \<Rightarrow> bool" where
  "linked G t = successively (\<lambda>a b. b \<in> set (successors G a)) t"

text \<open>Consecutive nodes are one calendar day apart.\<close>

definition consecutive_nights :: "trip \<Rightarrow> bool" where
  "consecutive_nights t = successively (\<lambda>a b. date b - date a = 1) t"

text \<open>The score as the specification words it: the number of adjacent pairs of a trip
  whose geographic ranks differ.\<close>

definition rank_changes :: "trip \<Rightarrow> nat" where
  "rank_changes t =
     length (filter (\<lambda>(a, b). geo_order (team a) \<noteq> geo_order (team b)) (zip t (tl t)))"

text \<open>The sort key of a trip whose score is defined.\<close>

definition efficiency :: "trip \<Rightarrow> nat" where
  "efficiency t = (case calculate_travel_efficiency t of Inl e \<Rightarrow> 0 | Inr k \<Rightarrow> k)"

text \<open>\<open>ranked.get(n, [])\<close>, as the report reads the ranking.\<close>

definition group_of :: "(nat \<times> trip list) list \<Rightarrow> nat \<Rightarrow> trip list" where
  "group_of d n = (case map_of d n of None \<Rightarrow> [] | Some g \<Rightarrow> g)"

section \<open>Example schedules\<close>

definition game :: "string \<Rightarrow> int \<Rightarrow> schedule_row" where
  "game t d =
     \<lparr>Home = t, Game_Date = d, Visitor = ''Visitor'', Arena = ''Arena'',
      row_city_group = city_group_of t\<rparr>"

text \<open>Five games on five consecutive nights, south to north.\<close>

definition five_nights :: "schedule_row list" where
  "five_nights =
     [game ''Wizards'' 0, game ''76ers'' 1, game ''Knicks'' 2, game ''Nets'' 3,
      game ''Celtics'' 4]"

text \<open>The same five teams on five consecutive nights, north to south.\<close>

definition five_nights_mirrored :: "schedule_row list" where
  "five_nights_mirrored =
     [game ''Celtics'' 0, game ''Nets'' 1, game ''Knicks'' 2, game ''76ers'' 3,
      game ''Wizards'' 4]"

definition nyc_pair :: "schedule_row list" where
  "nyc_pair = [game ''Knicks'' 0, game ''Nets'' 1]"

text \<open>A schedule with a home game of a team that is not one of the five.\<close>

definition with_outsider :: "schedule_row list" where
  "with_outsider =
     [game ''Wizards'' 0, game ''Lakers'' 1, game ''76ers'' 1, game ''Knicks'' 2]"

text \<open>A schedule with two Wizards games and one southbound trip, Celtics, 76ers,
  Wizards.\<close>

definition two_anchors :: "schedule_row list" where
  "two_anchors =
     [game ''Celtics'' 0, game ''76ers'' 1, game ''Wizards'' 2, game ''Wizards'' 5]"

definition trip_south :: trip where
  "trip_south = map node_of_row [game ''Celtics'' 0, game ''76ers'' 1, game ''Wizards'' 2]"

text \<open>Three trips of three nights from the same Wizards game; the first and the third
  have two rank changes, the second has one.\<close>

definition trip_a :: trip where
  "trip_a = map node_of_row [game ''Wizards'' 0, game ''76ers'' 1, game ''Celtics'' 2]"

definition trip_b :: trip where
  "trip_b = map node_of_row [game ''Wizards'' 0, game ''Knicks'' 1, game ''Nets'' 2]"

definition trip_c :: trip where
  "trip_c = map node_of_row [game ''Wizards'' 0, game ''76ers'' 1, game ''Knicks'' 2]"

section \<open>The transition rule\<close>

lemma geo_order_unfold:
  "geo_order t =
     (if t = ''Wizards'' then Some 1 else if t = ''76ers'' then Some 2
      else if t = ''Knicks'' then Some 3 else if t = ''Nets'' then Some 3
      else if t = ''Celtics'' then Some 4 else None)"
  by (simp add: geo_order_def get_team_geographic_order_def)

lemma geo_order_SomeD:
  "geo_order t = Some r \<Longrightarrow>
     (t = ''Wizards'' \<and> r = 1) \<or> (t = ''76ers'' \<and> r = 2) \<or> (t = ''Knicks'' \<and> r = 3)
     \<or> (t = ''Nets'' \<and> r = 3) \<or> (t = ''Celtics'' \<and> r = 4)"
  unfolding geo_order_unfold by (simp split: if_splits)

lemma geo_order_target: "t \<in> set target_teams \<Longrightarrow> \<exists>r. geo_order t = Some r"
  by (simp add: target_teams_def, elim disjE; simp add: geo_order_unfold)

lemma northbound_table_rank:
  assumes "geo_order (team a) = Some ra" and "geo_order (team b) = Some rb"
  shows "team b \<in> set (dict_get_list NORTHBOUND (team a)) \<longleftrightarrow> ra < rb"
  using geo_order_SomeD [OF assms(1)] geo_order_SomeD [OF assms(2)]
  by (elim disjE conjE; simp add: dict_get_list_def NORTHBOUND_def)

lemma southbound_table_rank:
  assumes "geo_order (team a) = Some ra" and "geo_order (team b) = Some rb"
  shows "team b \<in> set (dict_get_list SOUTHBOUND (team a)) \<longleftrightarrow> rb < ra"
  using geo_order_SomeD [OF assms(1)] geo_order_SomeD [OF assms(2)]
  by (elim disjE conjE; simp add: dict_get_list_def SOUTHBOUND_def)

lemma northbound_table_domain:
  "tb \<in> set (dict_get_list NORTHBOUND ta) \<Longrightarrow> ta \<in> set target_teams \<and> tb \<in> set target_teams"
  by (simp add: dict_get_list_def NORTHBOUND_def target_teams_def split: if_splits;
      (elim disjE)?; simp)

lemma southbound_table_domain:
  "tb \<in> set (dict_get_list SOUTHBOUND ta) \<Longrightarrow> ta \<in> set target_teams \<and> tb \<in> set target_teams"
  by (simp add: dict_get_list_def SOUTHBOUND_def target_teams_def split: if_splits;
      (elim disjE)?; simp)

lemma northbound_table_iff:
  "tb \<in> set (dict_get_list NORTHBOUND ta) \<longleftrightarrow>
     (\<exists>ra rb. geo_order ta = Some ra \<and> geo_order tb = Some rb \<and> ra < rb)"
proof
  assume m: "tb \<in> set (dict_get_list NORTHBOUND ta)"
  from northbound_table_domain [OF m] geo_order_target obtain ra rb
    where r: "geo_order ta = Some ra" "geo_order tb = Some rb" by blast
  with m northbound_table_rank [of "\<lparr>team = ta, date = 0, opponent = [], venue = [],
      city_group = None\<rparr>" ra "\<lparr>team = tb, date = 0, opponent = [], venue = [],
      city_group = None\<rparr>" rb]
  show "\<exists>ra rb. geo_order ta = Some ra \<and> geo_order tb = Some rb \<and> ra < rb" by simp
next
  assume "\<exists>ra rb. geo_order ta = Some ra \<and> geo_order tb = Some rb \<and> ra < rb"
  then obtain ra rb where r: "geo_order ta = Some ra" "geo_order tb = Some rb" "ra < rb"
    by blast
  with northbound_table_rank [of "\<lparr>team = ta, date = 0, opponent = [], venue = [],
      city_group = None\<rparr>" ra "\<lparr>team = tb, date = 0, opponent = [], venue = [],
      city_group = None\<rparr>" rb]
  show "tb \<in> set (dict_get_list NORTHBOUND ta)" by simp
qed

lemma southbound_table_iff:
  "tb \<in> set (dict_get_list SOUTHBOUND ta) \<longleftrightarrow>
     (\<exists>ra rb. geo_order ta = Some ra \<and> geo_order tb = Some rb \<and> rb < ra)"
proof
  assume m: "tb \<in> set (dict_get_list SOUTHBOUND ta)"
  from southbound_table_domain [OF m] geo_order_target obtain ra rb
    where r: "geo_order ta = Some ra" "geo_order tb = Some rb" by blast
  with m southbound_table_rank [of "\<lparr>team = ta, date = 0, opponent = [], venue = [],
      city_group = None\<rparr>" ra "\<lparr>team = tb, date = 0, opponent = [], venue = [],
      city_group = None\<rparr>" rb]
  show "\<exists>ra rb. geo_order ta = Some ra \<and> geo_order tb = Some rb \<and> rb < ra" by simp
next
  assume "\<exists>ra rb. geo_order ta = Some ra \<and> geo_order tb = Some rb \<and> rb < ra"
  then obtain ra rb where r: "geo_order ta = Some ra" "geo_order tb = Some rb" "rb < ra"
    by blast
  with southbound_table_rank [of "\<lparr>team = ta, date = 0, opponent = [], venue = [],
      city_group = None\<rparr>" ra "\<lparr>team = tb, date = 0, opponent = [], venue = [],
      city_group = None\<rparr>" rb]
  show "tb \<in> set (dict_get_list SOUTHBOUND ta)" by simp
qed

text \<open>
  C3. For both directions and every pair of nodes, the transition is valid exactly when
  either both nodes have \<open>city_group\<close> NYC and different teams (whatever the direction),
  or the teams of both nodes have ranks in the table Wizards 1, 76ers 2, Knicks 3, Nets 3,
  Celtics 4 and the rank of the target is strictly greater (northbound) or strictly smaller
  (southbound) than the rank of the source.
\<close>

theorem transition_rule_by_rank:
  assumes "direction = ''northbound'' \<or> direction = ''southbound''"
  shows "is_valid_geographic_transition from_node to_node direction \<longleftrightarrow>
           (city_group from_node = Some ''NYC'' \<and> city_group to_node = Some ''NYC''
              \<and> team from_node \<noteq> team to_node)
           \<or> (\<exists>rank_from rank_to.
                 geo_order (team from_node) = Some rank_from
                 \<and> geo_order (team to_node) = Some rank_to
                 \<and> (if direction = ''northbound'' then rank_from < rank_to
                    else rank_to < rank_from))"
proof -
  from assms show ?thesis
  proof
    assume "direction = ''northbound''"
    then show ?thesis
      using northbound_table_iff [of "team to_node" "team from_node"]
      by (auto simp: is_valid_geographic_transition_def)
  next
    assume "direction = ''southbound''"
    then show ?thesis
      using southbound_table_iff [of "team to_node" "team from_node"]
      by (auto simp: is_valid_geographic_transition_def)
  qed
qed

theorem transition_rule_by_rank_witness:
  "is_valid_geographic_transition (node_of_row (game ''Knicks'' 0))
     (node_of_row (game ''Nets'' 1)) ''southbound''
   \<and> is_valid_geographic_transition (node_of_row (game ''Nets'' 0))
     (node_of_row (game ''Knicks'' 1)) ''northbound''
   \<and> is_valid_geographic_transition (node_of_row (game ''Wizards'' 0))
     (node_of_row (game ''Celtics'' 1)) ''northbound''
   \<and> \<not> is_valid_geographic_transition (node_of_row (game ''Wizards'' 0))
     (node_of_row (game ''Celtics'' 1)) ''southbound''"
  using transition_rule_by_rank [of "''southbound''" "node_of_row (game ''Knicks'' 0)"
      "node_of_row (game ''Nets'' 1)"]
    transition_rule_by_rank [of "''northbound''" "node_of_row (game ''Nets'' 0)"
      "node_of_row (game ''Knicks'' 1)"]
    transition_rule_by_rank [of "''northbound''" "node_of_row (game ''Wizards'' 0)"
      "node_of_row (game ''Celtics'' 1)"]
    transition_rule_by_rank [of "''southbound''" "node_of_row (game ''Wizards'' 0)"
      "node_of_row (game ''Celtics'' 1)"]
  by (simp add: node_of_row_def game_def city_group_of_def geo_order_unfold)

section \<open>The label of an edge between co-located teams\<close>

text \<open>
  C1, evaluated on the code. For a Knicks game followed the next night by a Nets game the
  transition is valid in both directions, and the builder adds the edge twice; the graph
  then holds the edge once, labelled \<open>southbound\<close>, the label set last. The northbound
  label is gone.
\<close>

theorem nyc_edge_keeps_last_label:
  "is_valid_geographic_transition (node_of_row (game ''Knicks'' 0))
     (node_of_row (game ''Nets'' 1)) ''northbound''
   \<and> is_valid_geographic_transition (node_of_row (game ''Knicks'' 0))
     (node_of_row (game ''Nets'' 1)) ''southbound''
   \<and> edges_of (build_game_graph nyc_pair)
       = [((node_of_row (game ''Knicks'' 0), node_of_row (game ''Nets'' 1)), ''southbound'')]
   \<and> edge_direction (build_game_graph nyc_pair) (node_of_row (game ''Knicks'' 0))
       (node_of_row (game ''Nets'' 1)) \<noteq> Some ''northbound''"
  by code_simp

section \<open>Empty inputs\<close>

text \<open>
  C8. From an empty schedule the builder makes a graph with no node and no edge; on a
  graph without a Wizards node the search returns the empty list; the ranker maps the empty
  list of trips to the empty dictionary. Each is a normal return.
\<close>

theorem empty_inputs_return_empty:
  "number_of_nodes (build_game_graph []) = 0
   \<and> number_of_edges (build_game_graph []) = 0
   \<and> ((\<forall>n \<in> set (nodes_of G). team n \<noteq> ''Wizards'') \<longrightarrow> find_all_valid_trips G = [])
   \<and> rank_trips [] = Inr []"
proof -
  have "build_game_graph [] = empty_graph"
    by (simp add: build_game_graph_def add_edges_to_graph_def)
  moreover have "find_all_valid_trips G = []" if "\<forall>n \<in> set (nodes_of G). team n \<noteq> ''Wizards''"
  proof -
    from that have "filter (\<lambda>node. team node = ''Wizards'') (nodes_of G) = []"
      by (simp add: filter_empty_conv)
    then show ?thesis by (simp add: find_all_valid_trips_def)
  qed
  ultimately show ?thesis
    by (simp add: number_of_nodes_def number_of_edges_def empty_graph_def rank_trips_def)
qed

theorem empty_inputs_return_empty_witness:
  "''Wizards'' \<notin> team ` set (nodes_of (build_game_graph nyc_pair))
   \<and> find_all_valid_trips (build_game_graph nyc_pair) = []"
proof -
  have h: "''Wizards'' \<notin> team ` set (nodes_of (build_game_graph nyc_pair))"
    by code_simp
  then have "\<forall>n \<in> set (nodes_of (build_game_graph nyc_pair)). team n \<noteq> ''Wizards''"
    by (metis imageI)
  with h empty_inputs_return_empty [of "build_game_graph nyc_pair"] show ?thesis
    by (rule_tac conjI) simp_all
qed

section \<open>The score\<close>

lemma count_jumps_rank_changes:
  "count_jumps t j = Inr k \<Longrightarrow> k = j + rank_changes t"
proof (induction t j rule: count_jumps.induct)
  case (1 prev_node curr_node rest jumps)
  then show ?case
    by (auto simp: rank_changes_def split: option.splits if_splits)
qed (simp_all add: rank_changes_def)

lemma calculate_travel_efficiency_rank_changes:
  "calculate_travel_efficiency t = Inr k \<Longrightarrow> k = rank_changes t"
proof (cases "length t \<le> 1")
  case True
  assume "calculate_travel_efficiency t = Inr k"
  with True have k: "k = 0" by (simp add: calculate_travel_efficiency_def)
  from True have z: "zip t (tl t) = []" by (cases t) auto
  show ?thesis unfolding rank_changes_def z k by simp
next
  case False
  assume "calculate_travel_efficiency t = Inr k"
  with False have "count_jumps t 0 = Inr k" by (simp add: calculate_travel_efficiency_def)
  from count_jumps_rank_changes [OF this] show ?thesis by simp
qed

lemma count_jumps_teams:
  "map team s = map team t \<Longrightarrow> count_jumps s j = count_jumps t j"
proof (induction s j arbitrary: t rule: count_jumps.induct)
  case (1 prev_node curr_node rest jumps)
  then obtain p c r where t: "t = p # c # r" and tm: "team p = team prev_node"
    "team c = team curr_node" "map team (curr_node # rest) = map team (c # r)"
    by (cases t; cases "tl t") auto
  show ?case
    using "1.IH" [OF _ _ tm(3)] tm(1,2) unfolding t
    by (auto split: option.splits)
qed (auto simp: Cons_eq_map_conv)

lemma calculate_travel_efficiency_teams:
  assumes "map team s = map team t"
  shows "calculate_travel_efficiency s = calculate_travel_efficiency t"
proof -
  from assms have "length s = length t" by (metis length_map)
  with count_jumps_teams [OF assms] show ?thesis
    by (simp add: calculate_travel_efficiency_def)
qed

lemma count_jumps_defined:
  "\<forall>n \<in> set t. team n \<in> set target_teams \<Longrightarrow> \<exists>k. count_jumps t j = Inr k"
proof (induction t j rule: count_jumps.induct)
  case (1 prev_node curr_node rest jumps)
  from "1.prems" obtain a b where ab: "geo_order (team prev_node) = Some a"
    "geo_order (team curr_node) = Some b"
    using geo_order_target by (metis list.set_intros(1,2))
  from "1.prems" have "\<forall>n \<in> set (curr_node # rest). team n \<in> set target_teams" by simp
  from "1.IH" [OF ab this] ab show ?case by simp
qed simp_all

lemma calculate_travel_efficiency_defined:
  "\<forall>n \<in> set t. team n \<in> set target_teams \<Longrightarrow> \<exists>k. calculate_travel_efficiency t = Inr k"
  using count_jumps_defined [of t 0] by (simp add: calculate_travel_efficiency_def)

section \<open>Deduplication\<close>

lemma unique_loop_acc: "unique_loop ts seen acc = acc @ unique_loop ts seen []"
proof (induction ts arbitrary: seen acc)
  case Nil
  show ?case by simp
next
  case (Cons t ts)
  show ?case
    using Cons.IH [of "insert (trip_key t) seen" "acc @ [t]"]
      Cons.IH [of "insert (trip_key t) seen" "[t]"] Cons.IH [of seen acc]
    by simp
qed

lemma unique_loop_Cons:
  "unique_loop (t # ts) seen [] =
     (if trip_key t \<notin> seen then t # unique_loop ts (insert (trip_key t) seen) []
      else unique_loop ts seen [])"
  using unique_loop_acc [of ts "insert (trip_key t) seen" "[t]"] by simp

lemma unique_loop_keys:
  "trip_key ` set (unique_loop ts seen []) = trip_key ` set ts - seen"
proof (induction ts arbitrary: seen)
  case (Cons t ts)
  show ?case unfolding unique_loop_Cons using Cons.IH by auto
qed simp

lemma unique_loop_distinct: "distinct (map trip_key (unique_loop ts seen []))"
proof (induction ts arbitrary: seen)
  case (Cons t ts)
  have "trip_key t \<notin> trip_key ` set (unique_loop ts (insert (trip_key t) seen) [])"
    unfolding unique_loop_keys by simp
  with Cons.IH show ?case unfolding unique_loop_Cons by simp
qed simp

lemma unique_loop_subseq: "subseq (unique_loop ts seen []) ts"
proof (induction ts arbitrary: seen)
  case (Cons t ts)
  show ?case unfolding unique_loop_Cons
    using Cons.IH [of seen] Cons.IH [of "insert (trip_key t) seen"]
    by (auto intro: subseq_Cons2)
qed simp

lemma unique_loop_first:
  "t \<in> set (unique_loop ts seen []) \<Longrightarrow> find (\<lambda>s. trip_key s = trip_key t) ts = Some t"
proof (induction ts arbitrary: seen)
  case (Cons u ts)
  have notin: "trip_key s \<notin> S" if "s \<in> set (unique_loop ts S [])" for s S
    using unique_loop_keys [of ts S] that by blast
  show ?case
  proof (cases "trip_key u = trip_key t")
    case True
    have "t = u"
    proof (cases "trip_key u \<in> seen")
      case k: True
      with Cons.prems have "t \<in> set (unique_loop ts seen [])"
        unfolding unique_loop_Cons by simp
      from notin [OF this] k True show ?thesis by simp
    next
      case k: False
      show ?thesis
      proof (rule ccontr)
        assume "t \<noteq> u"
        with Cons.prems k have "t \<in> set (unique_loop ts (insert (trip_key u) seen) [])"
          unfolding unique_loop_Cons by simp
        from notin [OF this] True show False by simp
      qed
    qed
    with True show ?thesis by simp
  next
    case False
    with Cons.prems have "t \<in> set (unique_loop ts (insert (trip_key u) seen) [])
        \<or> t \<in> set (unique_loop ts seen [])"
      unfolding unique_loop_Cons by (auto split: if_splits)
    with Cons.IH False show ?thesis by auto
  qed
qed simp

lemma unique_loop_set: "set (unique_loop ts seen []) \<subseteq> set ts"
proof (induction ts arbitrary: seen)
  case (Cons t ts)
  show ?case unfolding unique_loop_Cons
    using Cons.IH [of seen] Cons.IH [of "insert (trip_key t) seen"] by auto
qed simp

section \<open>Grouping by length\<close>

lemma group_of_append_to_group:
  "group_of (append_to_group n t d) k = (if k = n then group_of d n @ [t] else group_of d k)"
  by (induction d) (auto simp: group_of_def)

lemma keys_append_to_group:
  "map fst (append_to_group n t d) = (if n \<in> fst ` set d then map fst d else map fst d @ [n])"
proof (induction d)
  case (Cons kg d)
  obtain k g where "kg = (k, g)" by (cases kg)
  with Cons.IH show ?case by (cases "k = n") auto
qed simp

lemma group_of_fold:
  "group_of (fold (\<lambda>trip d. append_to_group (length trip) trip d) us d) k
     = group_of d k @ filter (\<lambda>t. length t = k) us"
  by (induction us arbitrary: d) (auto simp: group_of_append_to_group)

lemma key_set_append_to_group:
  "fst ` set (append_to_group n t d) = insert n (fst ` set d)"
proof (induction d)
  case (Cons kg d)
  obtain k g where "kg = (k, g)" by (cases kg)
  with Cons.IH show ?case by (cases "k = n") auto
qed simp

lemma keys_fold:
  "fst ` set (fold (\<lambda>trip d. append_to_group (length trip) trip d) us d)
     = fst ` set d \<union> length ` set us"
proof (induction us arbitrary: d)
  case (Cons u us)
  show ?case
    using Cons.IH [of "append_to_group (length u) u d"]
    by (simp add: key_set_append_to_group)
qed simp

lemma distinct_keys_fold:
  "distinct (map fst d) \<Longrightarrow>
     distinct (map fst (fold (\<lambda>trip d. append_to_group (length trip) trip d) us d))"
  by (induction us arbitrary: d) (auto simp: keys_append_to_group)

lemma group_of_group_by_length:
  "group_of (group_by_length us) k = filter (\<lambda>t. length t = k) us"
  using group_of_fold [of us "[]" k] by (simp add: group_by_length_def group_of_def)

lemma keys_group_by_length: "fst ` set (group_by_length us) = length ` set us"
  using keys_fold [of us "[]"] by (simp add: group_by_length_def)

lemma distinct_keys_group_by_length: "distinct (map fst (group_by_length us))"
  using distinct_keys_fold [of "[]" us] by (simp add: group_by_length_def)

lemma group_of_entry: "distinct (map fst d) \<Longrightarrow> (n, g) \<in> set d \<Longrightarrow> group_of d n = g"
  by (simp add: group_of_def)

lemma group_by_length_entry:
  assumes "(n, g) \<in> set (group_by_length us)"
  shows "g = filter (\<lambda>t. length t = n) us"
  using group_of_entry [OF distinct_keys_group_by_length assms]
  by (simp add: group_of_group_by_length)

section \<open>Sorting the groups\<close>

lemma efficiency_keys_iff:
  "efficiency_keys g = Inr ks \<longleftrightarrow>
     (\<forall>t \<in> set g. \<exists>k. calculate_travel_efficiency t = Inr k) \<and> ks = map efficiency g"
proof (induction g arbitrary: ks)
  case Nil
  show ?case by auto
next
  case (Cons t g)
  show ?case
  proof (cases "calculate_travel_efficiency t")
    case (Inl e)
    then show ?thesis by auto
  next
    case (Inr k)
    show ?thesis
    proof (cases "efficiency_keys g")
      case (Inl e)
      with Cons.IH [of "map efficiency g"]
      have "\<not> (\<forall>t \<in> set g. \<exists>k. calculate_travel_efficiency t = Inr k)"
        by simp
      with Inl Inr show ?thesis by auto
    next
      case r: (Inr ks')
      with Cons.IH [of ks'] Inr show ?thesis by (auto simp: efficiency_def)
    qed
  qed
qed

lemma sort_key_decorated:
  "map snd (sort_key fst (zip (map f g) g)) = sort_key f g"
proof -
  have ins: "map snd (insort_key fst (f x, x) zs) = insort_key f x (map snd zs)"
    if "\<forall>z \<in> set zs. fst z = f (snd z)" for x zs
    using that by (induction zs) auto
  have dec: "\<forall>z \<in> set (sort_key fst (zip (map f g) g)). fst z = f (snd z)" for g
    by (auto simp: in_set_zip)
  show ?thesis
    by (induction g) (simp_all add: ins dec)
qed

lemma sort_by_efficiency_iff:
  "sort_by_efficiency g = Inr g' \<longleftrightarrow>
     (\<forall>t \<in> set g. \<exists>k. calculate_travel_efficiency t = Inr k) \<and> g' = sort_key efficiency g"
proof (cases "efficiency_keys g")
  case (Inl e)
  with efficiency_keys_iff [of g] show ?thesis
    by (auto simp: sort_by_efficiency_def)
next
  case (Inr ks)
  with efficiency_keys_iff [of g ks] show ?thesis
    by (auto simp: sort_by_efficiency_def sort_key_decorated)
qed

lemma sort_groups_iff:
  "sort_groups d = Inr m \<longleftrightarrow>
     (\<forall>(n, g) \<in> set d. \<forall>t \<in> set g. \<exists>k. calculate_travel_efficiency t = Inr k)
     \<and> m = map (\<lambda>(n, g). (n, sort_key efficiency g)) d"
proof (induction d arbitrary: m)
  case Nil
  show ?case by auto
next
  case (Cons ng d)
  obtain n g where ng: "ng = (n, g)" by (cases ng)
  show ?case
  proof (cases "sort_by_efficiency g")
    case (Inl e)
    with sort_by_efficiency_iff [of g] show ?thesis unfolding ng by auto
  next
    case (Inr g')
    with sort_by_efficiency_iff [of g g'] have g: "g' = sort_key efficiency g"
      "\<forall>t \<in> set g. \<exists>k. calculate_travel_efficiency t = Inr k" by auto
    show ?thesis
    proof (cases "sort_groups d")
      case (Inl e)
      with Cons.IH [of "map (\<lambda>(n, g). (n, sort_key efficiency g)) d"]
      have "\<not> (\<forall>(n, g) \<in> set d. \<forall>t \<in> set g. \<exists>k. calculate_travel_efficiency t = Inr k)"
        by simp
      with Inl Inr show ?thesis unfolding ng by auto
    next
      case r: (Inr m')
      with Cons.IH [of m'] Inr g show ?thesis unfolding ng by auto
    qed
  qed
qed

lemma rank_trips_iff:
  "rank_trips ts = Inr m \<longleftrightarrow>
     (\<forall>t \<in> set (unique_loop ts {} []). \<exists>k. calculate_travel_efficiency t = Inr k)
     \<and> m = map (\<lambda>(n, g). (n, sort_key efficiency g)) (group_by_length (unique_loop ts {} []))"
proof (cases "ts = []")
  case True
  then show ?thesis by (auto simp: rank_trips_def group_by_length_def)
next
  case False
  have "(\<forall>(n, g) \<in> set (group_by_length us). \<forall>t \<in> set g. P t) \<longleftrightarrow> (\<forall>t \<in> set us. P t)"
    for us :: "trip list" and P
  proof
    assume l: "\<forall>(n, g) \<in> set (group_by_length us). \<forall>t \<in> set g. P t"
    show "\<forall>t \<in> set us. P t"
    proof
      fix t assume t: "t \<in> set us"
      then have "length t \<in> fst ` set (group_by_length us)"
        unfolding keys_group_by_length by simp
      then obtain g where g: "(length t, g) \<in> set (group_by_length us)" by auto
      from group_by_length_entry [OF this] t have "t \<in> set g" by simp
      with l g show "P t" by auto
    qed
  next
    assume r: "\<forall>t \<in> set us. P t"
    show "\<forall>(n, g) \<in> set (group_by_length us). \<forall>t \<in> set g. P t"
      using group_by_length_entry r by fastforce
  qed
  with False sort_groups_iff [of "group_by_length (unique_loop ts {} [])" m]
  show ?thesis by (simp add: rank_trips_def)
qed

section \<open>What the ranker returns\<close>

lemma mset_append_to_group:
  "mset (concat (map snd (append_to_group n t d))) = add_mset t (mset (concat (map snd d)))"
proof (induction d)
  case (Cons kg d)
  obtain k g where "kg = (k, g)" by (cases kg)
  with Cons.IH show ?case by (cases "k = n") auto
qed simp

lemma mset_group_by_length: "mset (concat (map snd (group_by_length us))) = mset us"
proof -
  have "mset (concat (map snd (fold (\<lambda>trip d. append_to_group (length trip) trip d) us d)))
          = mset us + mset (concat (map snd d))" for d
  proof (induction us arbitrary: d)
    case (Cons u us)
    show ?case
      using Cons.IH [of "append_to_group (length u) u d"]
      by (simp add: mset_append_to_group)
  qed simp
  from this [of "[]"] show ?thesis by (simp add: group_by_length_def)
qed

lemma mset_sorted_groups:
  "mset (concat (map snd (map (\<lambda>(n, g). (n, sort_key f g)) d))) = mset (concat (map snd d))"
  by (induction d) auto

lemma rank_trips_mset:
  assumes "rank_trips ts = Inr m"
  shows "mset (concat (map snd m)) = mset (unique_loop ts {} [])"
proof -
  from assms
  have m: "m = map (\<lambda>(n, g). (n, sort_key efficiency g)) (group_by_length (unique_loop ts {} []))"
    unfolding rank_trips_iff by simp
  show ?thesis unfolding m by (simp only: mset_sorted_groups mset_group_by_length)
qed

lemma rank_trips_entry:
  assumes "rank_trips ts = Inr m" and "(n, g) \<in> set m"
  shows "g = sort_key efficiency (filter (\<lambda>t. length t = n) (unique_loop ts {} []))"
proof -
  from assms obtain g0 where g0: "(n, g0) \<in> set (group_by_length (unique_loop ts {} []))"
    and g: "g = sort_key efficiency g0"
    unfolding rank_trips_iff by auto
  from group_by_length_entry [OF g0] g show ?thesis by simp
qed

lemma rank_trips_defined:
  assumes "rank_trips ts = Inr m" and "t \<in> set (unique_loop ts {} [])"
  shows "calculate_travel_efficiency t = Inr (efficiency t)"
proof -
  from assms obtain k where "calculate_travel_efficiency t = Inr k"
    unfolding rank_trips_iff by auto
  then show ?thesis by (simp add: efficiency_def)
qed

lemma group_of_rank_trips:
  assumes "rank_trips ts = Inr m"
  shows "group_of m n = sort_key efficiency (filter (\<lambda>t. length t = n) (unique_loop ts {} []))"
proof -
  let ?U = "unique_loop ts {} []"
  from assms have m: "m = map (\<lambda>(n, g). (n, sort_key efficiency g)) (group_by_length ?U)"
    unfolding rank_trips_iff by simp
  have "map_of m n = map_option (sort_key efficiency) (map_of (group_by_length ?U) n)"
    unfolding m by (simp add: map_of_map)
  then have "group_of m n = sort_key efficiency (group_of (group_by_length ?U) n)"
    by (simp add: group_of_def split: option.splits)
  then show ?thesis by (simp add: group_of_group_by_length)
qed

lemma filter_key_once:
  "distinct (map f xs) \<Longrightarrow> x \<in> set xs \<Longrightarrow> length (filter (\<lambda>s. f s = f x) xs) = 1"
proof (induction xs)
  case (Cons y ys)
  show ?case
  proof (cases "f y = f x")
    case True
    with Cons.prems have "\<forall>s \<in> set ys. f s \<noteq> f x" by (metis distinct.simps(2) image_eqI list.simps(9) set_map)
    then have "filter (\<lambda>s. f s = f x) ys = []" by (simp add: filter_empty_conv)
    with True show ?thesis by simp
  next
    case False
    with Cons show ?thesis by auto
  qed
qed simp

text \<open>
  C6. When the ranker returns, every (team, date) sequence of the input occurs exactly once
  among the trips of the output, however often it occurs in the input. The trips that
  survive deduplication are a subsequence of the input, each the first input trip with
  its key, and every group of the output is the stable sort of the survivors of that
  length, taken in this order.
\<close>

theorem duplicates_collapse_first_seen:
  assumes "rank_trips ts = Inr m"
  shows "(\<forall>t \<in> set ts. length (filter (\<lambda>s. trip_key s = trip_key t) (concat (map snd m))) = 1)
       \<and> subseq (unique_loop ts {} []) ts
       \<and> (\<forall>t \<in> set (unique_loop ts {} []). find (\<lambda>s. trip_key s = trip_key t) ts = Some t)
       \<and> (\<forall>n. sort_by_efficiency (filter (\<lambda>t. length t = n) (unique_loop ts {} []))
                = Inr (group_of m n))"
proof -
  let ?U = "unique_loop ts {} []"
  have once: "length (filter (\<lambda>s. trip_key s = trip_key t) (concat (map snd m))) = 1"
    if t: "t \<in> set ts" for t
  proof -
    from t have "trip_key t \<in> trip_key ` set ?U" unfolding unique_loop_keys by simp
    then obtain u where u: "u \<in> set ?U" "trip_key u = trip_key t" by auto
    have "length (filter (\<lambda>s. trip_key s = trip_key t) (concat (map snd m)))
            = size (filter_mset (\<lambda>s. trip_key s = trip_key t) (mset (concat (map snd m))))"
      by (metis mset_filter size_mset)
    also have "\<dots> = size (filter_mset (\<lambda>s. trip_key s = trip_key t) (mset ?U))"
      unfolding rank_trips_mset [OF assms] ..
    also have "\<dots> = length (filter (\<lambda>s. trip_key s = trip_key u) ?U)"
      unfolding u(2) by (metis mset_filter size_mset)
    also have "\<dots> = 1" by (rule filter_key_once [OF unique_loop_distinct u(1)])
    finally show ?thesis .
  qed
  have sorted_group: "sort_by_efficiency (filter (\<lambda>t. length t = n) ?U) = Inr (group_of m n)" for n
    unfolding sort_by_efficiency_iff group_of_rank_trips [OF assms]
    using rank_trips_defined [OF assms] by auto
  from once sorted_group unique_loop_subseq [of ts "{}"] unique_loop_first [of _ ts "{}"]
  show ?thesis by blast
qed

theorem duplicates_collapse_first_seen_witness:
  "rank_trips [trip_a, trip_b, trip_c, trip_a] = Inr [(3, [trip_b, trip_a, trip_c])]
   \<and> length (filter (\<lambda>s. trip_key s = trip_key trip_a)
        (concat (map snd [(3::nat, [trip_b, trip_a, trip_c])]))) = 1
   \<and> subseq (unique_loop [trip_a, trip_b, trip_c, trip_a] {} []) [trip_a, trip_b, trip_c, trip_a]"
proof -
  have h: "rank_trips [trip_a, trip_b, trip_c, trip_a] = Inr [(3, [trip_b, trip_a, trip_c])]"
    by code_simp
  from duplicates_collapse_first_seen [OF h] h show ?thesis by simp
qed

text \<open>
  C7. When the ranker returns, in every group each trip's score is at most the score of
  the trip after it; the score of a trip is the number of its adjacent pairs of nodes with
  different geographic ranks, and 0 for any trip of at most one node; and the trips of one
  score stand in the order in which deduplication left them.
\<close>

theorem groups_sorted_by_efficiency:
  assumes "rank_trips ts = Inr m" and "(n, g) \<in> set m"
  shows "(\<forall>i. Suc i < length g \<longrightarrow>
            (\<exists>a b. calculate_travel_efficiency (g ! i) = Inr a
               \<and> calculate_travel_efficiency (g ! Suc i) = Inr b \<and> a \<le> b))
       \<and> (\<forall>t \<in> set g. calculate_travel_efficiency t = Inr (rank_changes t))
       \<and> (\<forall>t. length t \<le> 1 \<longrightarrow> calculate_travel_efficiency t = Inr 0)
       \<and> (\<forall>k. filter (\<lambda>t. calculate_travel_efficiency t = Inr k) g
              = filter (\<lambda>t. calculate_travel_efficiency t = Inr k)
                  (filter (\<lambda>t. length t = n) (unique_loop ts {} [])))"
proof -
  let ?U = "unique_loop ts {} []"
  let ?g0 = "filter (\<lambda>t. length t = n) ?U"
  have g: "g = sort_key efficiency ?g0" by (rule rank_trips_entry [OF assms])
  have score: "calculate_travel_efficiency t = Inr (efficiency t)" if "t \<in> set g" for t
    using that rank_trips_defined [OF assms(1), of t] unfolding g by simp
  have "sorted (map efficiency g)" unfolding g by (rule sorted_sort_key)
  then have adj: "efficiency (g ! i) \<le> efficiency (g ! Suc i)" if "Suc i < length g" for i
    using that by (simp add: sorted_iff_nth_Suc)
  have 1: "\<exists>a b. calculate_travel_efficiency (g ! i) = Inr a
             \<and> calculate_travel_efficiency (g ! Suc i) = Inr b \<and> a \<le> b"
    if i: "Suc i < length g" for i
    using adj [OF i] score [of "g ! i"] score [of "g ! Suc i"] i by simp
  have 2: "calculate_travel_efficiency t = Inr (rank_changes t)" if "t \<in> set g" for t
    using score [OF that] calculate_travel_efficiency_rank_changes [of t "efficiency t"] by simp
  have 3: "calculate_travel_efficiency t = Inr 0" if "length t \<le> 1" for t
    using that by (simp add: calculate_travel_efficiency_def)
  have 4: "filter (\<lambda>t. calculate_travel_efficiency t = Inr k) g
             = filter (\<lambda>t. calculate_travel_efficiency t = Inr k) ?g0" for k
  proof -
    have "filter (\<lambda>t. calculate_travel_efficiency t = Inr k) g
            = filter (\<lambda>t. efficiency t = k) g"
      by (rule filter_cong [OF refl]) (simp add: score)
    also have "\<dots> = filter (\<lambda>t. efficiency t = k) ?g0"
      unfolding g by (rule sort_key_stable)
    also have "\<dots> = filter (\<lambda>t. calculate_travel_efficiency t = Inr k) ?g0"
      by (rule filter_cong [OF refl]) (use score g in simp)
    finally show ?thesis .
  qed
  from 1 2 3 4 show ?thesis by blast
qed

theorem groups_sorted_by_efficiency_witness:
  "rank_trips [trip_a, trip_b, trip_c, trip_a] = Inr [(3, [trip_b, trip_a, trip_c])]
   \<and> (\<exists>a b. calculate_travel_efficiency trip_b = Inr a
         \<and> calculate_travel_efficiency trip_a = Inr b \<and> a \<le> b)
   \<and> calculate_travel_efficiency trip_c = Inr (rank_changes trip_c)
   \<and> filter (\<lambda>t. calculate_travel_efficiency t = Inr 2) [trip_b, trip_a, trip_c]
       = filter (\<lambda>t. calculate_travel_efficiency t = Inr 2)
           (filter (\<lambda>t. length t = 3) (unique_loop [trip_a, trip_b, trip_c, trip_a] {} []))"
proof -
  have h: "rank_trips [trip_a, trip_b, trip_c, trip_a] = Inr [(3, [trip_b, trip_a, trip_c])]"
    by code_simp
  have e: "(3, [trip_b, trip_a, trip_c]) \<in> set [(3::nat, [trip_b, trip_a, trip_c])]"
    by simp
  note r = groups_sorted_by_efficiency [OF h e]
  have 1: "\<exists>a b. calculate_travel_efficiency trip_b = Inr a
             \<and> calculate_travel_efficiency trip_a = Inr b \<and> a \<le> b"
    using r [THEN conjunct1, THEN spec, of 0] by simp
  have 2: "calculate_travel_efficiency trip_c = Inr (rank_changes trip_c)"
    using r [THEN conjunct2, THEN conjunct1] by simp
  note 3 = r [THEN conjunct2, THEN conjunct2, THEN conjunct2, THEN spec, of 2]
  from h 1 2 3 show ?thesis by (intro conjI)
qed

section \<open>The edges of a built graph\<close>

lemma set_direction_keys:
  "fst ` set (set_direction u v d es) \<subseteq> insert (u, v) (fst ` set es)"
proof (induction es)
  case (Cons e es)
  obtain a b l where "e = ((a, b), l)" by (cases e) auto
  with Cons.IH show ?case by auto
qed simp

lemma edges_of_add_node: "edges_of (add_node G n) = edges_of G"
  by (simp add: add_node_def)

lemma add_edge_keys:
  "fst ` set (edges_of (add_edge G u v d)) \<subseteq> insert (u, v) (fst ` set (edges_of G))"
  using set_direction_keys [of u v d "edges_of G"]
  by (simp add: add_edge_def Let_def edges_of_add_node)

lemma add_edges_step_keys:
  assumes "k \<in> fst ` set (edges_of (add_edges_step f t G))"
  shows "k \<in> fst ` set (edges_of G) \<or> (k = (f, t) \<and> edge_admitted f t)"
proof (cases "edge_admitted f t \<and> \<not> node_eq f t")
  case True
  let ?K = "insert (f, t) (fst ` set (edges_of G))"
  let ?N = "add_edge G f t ''northbound''"
  have n: "fst ` set (edges_of ?N) \<subseteq> ?K"
    by (rule add_edge_keys)
  have s: "fst ` set (edges_of (add_edge G f t ''southbound'')) \<subseteq> ?K"
    by (rule add_edge_keys)
  have "fst ` set (edges_of (add_edge ?N f t ''southbound''))
          \<subseteq> insert (f, t) (fst ` set (edges_of ?N))"
    by (rule add_edge_keys)
  with n have ns: "fst ` set (edges_of (add_edge ?N f t ''southbound'')) \<subseteq> ?K"
    by blast
  have "add_edges_step f t G = G \<or> add_edges_step f t G = ?N
      \<or> add_edges_step f t G = add_edge G f t ''southbound''
      \<or> add_edges_step f t G = add_edge ?N f t ''southbound''"
    by (simp add: add_edges_step_def Let_def)
  with n s ns have "fst ` set (edges_of (add_edges_step f t G)) \<subseteq> ?K"
    by (elim disjE) auto
  with assms True show ?thesis by auto
next
  case False
  then have "add_edges_step f t G = G"
    by (auto simp: add_edges_step_def edge_admitted_def)
  with assms show ?thesis by simp
qed

lemma fold_step_keys:
  assumes "k \<in> fst ` set (edges_of (fold (add_edges_step f) ts G))"
  shows "k \<in> fst ` set (edges_of G) \<or> (\<exists>t \<in> set ts. k = (f, t) \<and> edge_admitted f t)"
  using assms
proof (induction ts arbitrary: G)
  case (Cons t ts)
  from Cons.IH [of "add_edges_step f t G"] Cons.prems
  have "k \<in> fst ` set (edges_of (add_edges_step f t G))
      \<or> (\<exists>t \<in> set ts. k = (f, t) \<and> edge_admitted f t)" by simp
  with add_edges_step_keys [of k f t G] show ?case by auto
qed simp

lemma add_edges_to_graph_keys:
  assumes "k \<in> fst ` set (edges_of (fold (\<lambda>f. fold (add_edges_step f) ns) fs G))"
  shows "k \<in> fst ` set (edges_of G)
       \<or> (\<exists>f \<in> set fs. \<exists>t \<in> set ns. k = (f, t) \<and> edge_admitted f t)"
  using assms
proof (induction fs arbitrary: G)
  case (Cons f fs)
  from Cons.IH [of "fold (add_edges_step f) ns G"] Cons.prems
  have "k \<in> fst ` set (edges_of (fold (add_edges_step f) ns G))
      \<or> (\<exists>f \<in> set fs. \<exists>t \<in> set ns. k = (f, t) \<and> edge_admitted f t)" by simp
  with fold_step_keys [of k f ns G] show ?case by auto
qed simp

lemma edges_of_fold_add_node: "edges_of (fold (\<lambda>n G. add_node G n) ns G) = edges_of G"
  by (induction ns arbitrary: G) (simp_all add: edges_of_add_node)

lemma build_game_graph_keys:
  assumes "(a, b) \<in> fst ` set (edges_of (build_game_graph rows))"
  shows "a \<in> node_of_row ` set rows \<and> b \<in> node_of_row ` set rows \<and> edge_admitted a b"
proof -
  let ?ns = "map node_of_row rows"
  from assms have "(a, b) \<in> fst ` set (edges_of (fold (\<lambda>f. fold (add_edges_step f) ?ns) ?ns
      (fold (\<lambda>n G. add_node G n) ?ns empty_graph)))"
    by (simp add: build_game_graph_def add_edges_to_graph_def Let_def)
  from add_edges_to_graph_keys [OF this] show ?thesis
    by (auto simp: edges_of_fold_add_node empty_graph_def)
qed

lemma successors_key:
  "b \<in> set (successors G u) \<Longrightarrow> \<exists>a. node_eq a u \<and> (a, b) \<in> fst ` set (edges_of G)"
  by (force simp: successors_def)

lemma node_eq_fields: "node_eq a u \<Longrightarrow> team a = team u \<and> date a = date u"
  by (simp add: node_eq_def node_key_def)

lemma build_game_graph_successors:
  assumes "b \<in> set (successors (build_game_graph rows) u)"
  shows "\<exists>a \<in> node_of_row ` set rows. team a = team u \<and> date a = date u
           \<and> b \<in> node_of_row ` set rows \<and> edge_admitted a b"
proof -
  from successors_key [OF assms] obtain a where a: "node_eq a u"
    "(a, b) \<in> fst ` set (edges_of (build_game_graph rows))" by blast
  from build_game_graph_keys [OF a(2)] node_eq_fields [OF a(1)] show ?thesis by blast
qed

lemma edge_admitted_domain:
  assumes "edge_admitted a b"
    and "city_group a = Some ''NYC'' \<longrightarrow> team a \<in> set target_teams"
    and "city_group b = Some ''NYC'' \<longrightarrow> team b \<in> set target_teams"
  shows "team a \<in> set target_teams \<and> team b \<in> set target_teams"
  using assms northbound_table_domain [of "team b" "team a"]
    southbound_table_domain [of "team b" "team a"]
  unfolding edge_admitted_def is_valid_geographic_transition_def
  by (simp split: if_splits) blast

section \<open>The searches return paths of the graph\<close>

declare dfs_northbound.simps [simp del]
declare dfs_southbound.simps [simp del]

lemma dfs_northbound_mem:
  "t \<in> set (dfs_northbound G c V p) \<longleftrightarrow>
     (t = p @ [c] \<and> 3 \<le> length (p @ [c]) \<and> length (p @ [c]) \<le> 5
        \<and> ''Wizards'' \<in> V \<union> {team c})
     \<or> (length (p @ [c]) < 5
        \<and> (\<exists>x \<in> set (successors G c). edge_direction G c x = Some ''northbound''
              \<and> team x \<notin> V \<union> {team c}
              \<and> t \<in> set (dfs_northbound G x (V \<union> {team c}) (p @ [c]))))"
  by (subst dfs_northbound.simps) auto

lemma dfs_southbound_mem:
  "t \<in> set (dfs_southbound G c V p) \<longleftrightarrow>
     (t = p @ [c] \<and> team c = ''Wizards'' \<and> 3 \<le> length (p @ [c]) \<and> length (p @ [c]) \<le> 5)
     \<or> (length (p @ [c]) < 5
        \<and> (\<exists>x \<in> set (successors G c). edge_direction G c x = Some ''southbound''
              \<and> team x \<notin> V \<union> {team c}
              \<and> t \<in> set (dfs_southbound G x (V \<union> {team c}) (p @ [c]))))"
  by (subst dfs_southbound.simps) auto

lemma linked_snoc:
  "linked G (q @ [c]) \<Longrightarrow> x \<in> set (successors G c) \<Longrightarrow> linked G ((q @ [c]) @ [x])"
  by (simp add: linked_def successively_append_iff)

lemma dfs_northbound_sound:
  assumes "t \<in> set (dfs_northbound G c V p)" and "V = team ` set p"
    and "distinct (map team (p @ [c]))" and "linked G (p @ [c])"
  shows "3 \<le> length t \<and> length t \<le> 5 \<and> distinct (map team t) \<and> linked G t
       \<and> ''Wizards'' \<in> team ` set t \<and> (\<exists>r. t = p @ c # r)"
  using assms
proof (induction G c V p rule: dfs_northbound.induct)
  case (1 G c V p)
  from "1.prems"(1) dfs_northbound_mem [of t G c V p]
  consider (here) "t = p @ [c]" "3 \<le> length (p @ [c])" "length (p @ [c]) \<le> 5"
      "''Wizards'' \<in> V \<union> {team c}"
    | (deeper) x where "length (p @ [c]) < 5" "x \<in> set (successors G c)"
      "edge_direction G c x = Some ''northbound''" "team x \<notin> V \<union> {team c}"
      "t \<in> set (dfs_northbound G x (V \<union> {team c}) (p @ [c]))"
    by blast
  then show ?case
  proof cases
    case here
    with "1.prems" show ?thesis by auto
  next
    case deeper
    have v: "V \<union> {team c} = team ` set (p @ [c])"
      using "1.prems"(2) by auto
    have d: "distinct (map team ((p @ [c]) @ [x]))"
      using "1.prems"(3) deeper(4) v by auto
    from "1.IH" [OF deeper v d linked_snoc [OF "1.prems"(4) deeper(2)]]
    show ?thesis by auto
  qed
qed

lemma dfs_southbound_sound:
  assumes "t \<in> set (dfs_southbound G c V p)" and "V = team ` set p"
    and "distinct (map team (p @ [c]))" and "linked G (p @ [c])"
  shows "3 \<le> length t \<and> length t \<le> 5 \<and> distinct (map team t) \<and> linked G t
       \<and> ''Wizards'' \<in> team ` set t \<and> (\<exists>r. t = p @ c # r)"
  using assms
proof (induction G c V p rule: dfs_southbound.induct)
  case (1 G c V p)
  from "1.prems"(1) dfs_southbound_mem [of t G c V p]
  consider (here) "t = p @ [c]" "team c = ''Wizards''" "3 \<le> length (p @ [c])"
      "length (p @ [c]) \<le> 5"
    | (deeper) x where "length (p @ [c]) < 5" "x \<in> set (successors G c)"
      "edge_direction G c x = Some ''southbound''" "team x \<notin> V \<union> {team c}"
      "t \<in> set (dfs_southbound G x (V \<union> {team c}) (p @ [c]))"
    by blast
  then show ?case
  proof cases
    case here
    with "1.prems" show ?thesis by auto
  next
    case deeper
    have v: "V \<union> {team c} = team ` set (p @ [c])"
      using "1.prems"(2) by auto
    have d: "distinct (map team ((p @ [c]) @ [x]))"
      using "1.prems"(3) deeper(4) v by auto
    from "1.IH" [OF deeper v d linked_snoc [OF "1.prems"(4) deeper(2)]]
    show ?thesis by auto
  qed
qed

lemma find_northbound_trips_sound:
  assumes "t \<in> set (find_northbound_trips G w)"
  shows "3 \<le> length t \<and> length t \<le> 5 \<and> distinct (map team t) \<and> linked G t
       \<and> ''Wizards'' \<in> team ` set t \<and> hd t = w"
  using dfs_northbound_sound [of t G w "{}" "[]"] assms
  by (auto simp: find_northbound_trips_def linked_def)

lemma find_southbound_trips_mem:
  "t \<in> set (find_southbound_trips G w) \<longleftrightarrow>
     (\<exists>s \<in> set (nodes_of G). team s \<noteq> ''Wizards'' \<and> t \<in> set (dfs_southbound G s {} []))"
  by (auto simp: find_southbound_trips_def split: if_splits)

lemma find_southbound_trips_sound:
  assumes "t \<in> set (find_southbound_trips G w)"
  shows "3 \<le> length t \<and> length t \<le> 5 \<and> distinct (map team t) \<and> linked G t
       \<and> ''Wizards'' \<in> team ` set t \<and> team (hd t) \<noteq> ''Wizards''"
proof -
  from assms obtain s where s: "team s \<noteq> ''Wizards''" "t \<in> set (dfs_southbound G s {} [])"
    unfolding find_southbound_trips_mem by blast
  from dfs_southbound_sound [of t G s "{}" "[]"] s show ?thesis
    by (auto simp: linked_def)
qed

lemma find_all_valid_trips_mem:
  "t \<in> set (find_all_valid_trips G) \<longleftrightarrow>
     (\<exists>w \<in> set (nodes_of G). team w = ''Wizards''
        \<and> (t \<in> set (find_northbound_trips G w) \<or> t \<in> set (find_southbound_trips G w)))"
  by (auto simp: find_all_valid_trips_def)

lemma find_all_valid_trips_sound:
  assumes "t \<in> set (find_all_valid_trips G)"
  shows "3 \<le> length t \<and> length t \<le> 5 \<and> distinct (map team t) \<and> linked G t
       \<and> ''Wizards'' \<in> team ` set t"
  using assms find_northbound_trips_sound [of t G] find_southbound_trips_sound [of t G]
  unfolding find_all_valid_trips_mem by blast

section \<open>Trips of a built graph\<close>

lemma linked_pairs:
  assumes "linked G t"
    and "\<And>u b. b \<in> set (successors G u) \<Longrightarrow> P u b"
  shows "successively P t"
  using assms(1) unfolding linked_def
proof (induction t rule: induct_list012)
  case (3 x y zs)
  then show ?case using assms(2) by auto
qed simp_all

lemma successively_members:
  assumes "successively P t" and "2 \<le> length t"
    and "\<And>u b. P u b \<Longrightarrow> Q u \<and> Q b"
  shows "\<forall>n \<in> set t. Q n"
  using assms(1,2)
proof (induction t rule: induct_list012)
  case (3 x y zs)
  from "3.prems" have xy: "P x y" and rest: "successively P (y # zs)" by auto
  show ?case
  proof (cases zs)
    case Nil
    with assms(3) [OF xy] show ?thesis by simp
  next
    case (Cons z zs')
    with "3.IH"(2) [OF rest] assms(3) [OF xy] show ?thesis by simp
  qed
qed simp_all

lemma built_trip_consecutive:
  assumes "linked (build_game_graph rows) t"
  shows "consecutive_nights t"
  unfolding consecutive_nights_def
proof (rule linked_pairs [OF assms])
  fix u b assume "b \<in> set (successors (build_game_graph rows) u)"
  from build_game_graph_successors [OF this]
  show "date b - date u = 1"
    by (auto simp: edge_admitted_def is_consecutive_night_def)
qed

lemma built_trip_teams:
  assumes "linked (build_game_graph rows) t" and "2 \<le> length t"
    and nyc: "\<forall>row \<in> set rows. row_city_group row = ''NYC'' \<longrightarrow> Home row \<in> set target_teams"
  shows "\<forall>n \<in> set t. team n \<in> set target_teams"
proof -
  have dom: "team u \<in> set target_teams \<and> team b \<in> set target_teams"
    if "b \<in> set (successors (build_game_graph rows) u)" for u b
  proof -
    from build_game_graph_successors [OF that] obtain a where a: "a \<in> node_of_row ` set rows"
      "team a = team u" "b \<in> node_of_row ` set rows" "edge_admitted a b" by blast
    from a(1,3) nyc have "city_group a = Some ''NYC'' \<longrightarrow> team a \<in> set target_teams"
      "city_group b = Some ''NYC'' \<longrightarrow> team b \<in> set target_teams"
      by (auto simp: node_of_row_def)
    from edge_admitted_domain [OF a(4) this] a(2) show ?thesis by simp
  qed
  have "successively (\<lambda>u b. team u \<in> set target_teams \<and> team b \<in> set target_teams) t"
    by (rule linked_pairs [OF assms(1)]) (rule dom)
  from successively_members [OF this assms(2), of "\<lambda>n. team n \<in> set target_teams"]
  show ?thesis by simp
qed

lemma pipeline_returns:
  assumes "\<forall>row \<in> set rows. row_city_group row = ''NYC'' \<longrightarrow> Home row \<in> set target_teams"
  shows "\<exists>m. rank_trips (find_all_valid_trips (build_game_graph rows)) = Inr m
           \<and> (\<forall>(n, g) \<in> set m. \<forall>t \<in> set g.
                 length t = n \<and> t \<in> set (find_all_valid_trips (build_game_graph rows))
                 \<and> (\<forall>node \<in> set t. team node \<in> set target_teams))"
proof -
  let ?ts = "find_all_valid_trips (build_game_graph rows)"
  let ?U = "unique_loop ?ts {} []"
  let ?m = "map (\<lambda>(n, g). (n, sort_key efficiency g)) (group_by_length ?U)"
  have teams: "\<forall>node \<in> set t. team node \<in> set target_teams" if "t \<in> set ?ts" for t
    using find_all_valid_trips_sound [OF that] built_trip_teams [OF _ _ assms, of t] by simp
  have "\<exists>k. calculate_travel_efficiency t = Inr k" if "t \<in> set ?U" for t
    using that unique_loop_set [of ?ts "{}"] teams calculate_travel_efficiency_defined by blast
  then have m: "rank_trips ?ts = Inr ?m" unfolding rank_trips_iff by simp
  have "length t = n \<and> t \<in> set ?ts \<and> (\<forall>node \<in> set t. team node \<in> set target_teams)"
    if "(n, g) \<in> set ?m" "t \<in> set g" for n g t
  proof -
    from rank_trips_entry [OF m that(1)] that(2) have "length t = n" "t \<in> set ?U" by auto
    with unique_loop_set [of ?ts "{}"] teams show ?thesis by blast
  qed
  with m show ?thesis by blast
qed

section \<open>Every ranked trip is a valid trip\<close>

lemma well_formed_row_nyc:
  assumes "well_formed_row row" and "row_city_group row = ''NYC''"
  shows "Home row \<in> set [''Knicks'', ''Nets'']"
proof (rule ccontr)
  assume "Home row \<notin> set [''Knicks'', ''Nets'']"
  with assms have "Home row = ''NYC''" "Home row \<in> set target_teams"
    by (simp_all add: well_formed_row_def city_group_of_def)
  then show False by (simp add: target_teams_def)
qed

text \<open>
  C4. For a schedule of well-formed rows the ranker returns, and every trip of its output
  has 3, 4 or 5 nodes (and stands in the group of its length), has pairwise different
  teams, has consecutive nodes exactly one day apart, and contains a Wizards game.
\<close>

theorem ranked_trips_are_valid:
  assumes "\<forall>row \<in> set rows. well_formed_row row"
  shows "\<exists>m. rank_trips (find_all_valid_trips (build_game_graph rows)) = Inr m
           \<and> (\<forall>(n, g) \<in> set m. \<forall>t \<in> set g.
                 length t = n \<and> length t \<in> {3, 4, 5} \<and> distinct (map team t)
                 \<and> consecutive_nights t \<and> ''Wizards'' \<in> set (map team t))"
proof -
  let ?G = "build_game_graph rows"
  have nyc: "\<forall>row \<in> set rows. row_city_group row = ''NYC'' \<longrightarrow> Home row \<in> set target_teams"
    using assms by (simp add: well_formed_row_def)
  from pipeline_returns [OF nyc] obtain m where m: "rank_trips (find_all_valid_trips ?G) = Inr m"
    and sub: "\<forall>(n, g) \<in> set m. \<forall>t \<in> set g. length t = n \<and> t \<in> set (find_all_valid_trips ?G)"
    by blast
  have "length t \<in> {3, 4, 5} \<and> distinct (map team t) \<and> consecutive_nights t
          \<and> ''Wizards'' \<in> set (map team t)"
    if "t \<in> set (find_all_valid_trips ?G)" for t
  proof -
    from find_all_valid_trips_sound [OF that]
    have s: "3 \<le> length t" "length t \<le> 5" "distinct (map team t)" "linked ?G t"
      "''Wizards'' \<in> team ` set t" by simp_all
    from s(1,2) have "length t \<in> {3, 4, 5}" by auto
    with s(3,5) built_trip_consecutive [OF s(4)] show ?thesis by simp
  qed
  with m sub show ?thesis by blast
qed

theorem ranked_trips_are_valid_witness:
  "list_all well_formed_row five_nights
   \<and> rank_trips (find_all_valid_trips (build_game_graph five_nights)) = Inr [(3, [trip_c])]
   \<and> length trip_c \<in> {3, 4, 5} \<and> distinct (map team trip_c)
   \<and> consecutive_nights trip_c \<and> ''Wizards'' \<in> set (map team trip_c)"
proof -
  have w: "list_all well_formed_row five_nights" by code_simp
  then have h: "\<forall>row \<in> set five_nights. well_formed_row row" by (simp add: list_all_iff)
  have e: "rank_trips (find_all_valid_trips (build_game_graph five_nights)) = Inr [(3, [trip_c])]"
    by code_simp
  from ranked_trips_are_valid [OF h] e
  have "length trip_c \<in> {3, 4, 5} \<and> distinct (map team trip_c)
          \<and> consecutive_nights trip_c \<and> ''Wizards'' \<in> set (map team trip_c)"
    by simp
  with w e show ?thesis by simp
qed

section \<open>A team outside the five\<close>

text \<open>
  C9, as stated, fails: a schedule with a Lakers home game goes through graph
  construction, search and ranking, and the ranker returns the one trip there is.
\<close>

theorem outside_team_counterexample:
  "Home (game ''Lakers'' 1) \<notin> set target_teams
   \<and> game ''Lakers'' 1 \<in> set with_outsider
   \<and> rank_trips (find_all_valid_trips (build_game_graph with_outsider)) = Inr [(3, [trip_c])]"
  by code_simp

text \<open>
  C9, amended. When only Knicks and Nets rows carry the city group NYC (as the ingestion
  derives it), rows of any other team raise no error: the ranker returns, every edge of
  the graph joins two of the five teams, and every trip of the output visits only the five
  teams. A row of another team is a node without edges and is part of no trip.
\<close>

theorem outside_team_is_absorbed:
  assumes "\<forall>row \<in> set rows. row_city_group row = ''NYC'' \<longrightarrow> Home row \<in> set [''Knicks'', ''Nets'']"
  shows "\<exists>m. rank_trips (find_all_valid_trips (build_game_graph rows)) = Inr m
           \<and> (\<forall>(n, g) \<in> set m. \<forall>t \<in> set g. \<forall>node \<in> set t. team node \<in> set target_teams)
           \<and> (\<forall>e \<in> set (edges_of (build_game_graph rows)).
                 team (fst (fst e)) \<in> set target_teams
                 \<and> team (snd (fst e)) \<in> set target_teams)"
proof -
  have nyc: "\<forall>row \<in> set rows. row_city_group row = ''NYC'' \<longrightarrow> Home row \<in> set target_teams"
    using assms by (auto simp: target_teams_def)
  have "team (fst (fst e)) \<in> set target_teams \<and> team (snd (fst e)) \<in> set target_teams"
    if "e \<in> set (edges_of (build_game_graph rows))" for e
  proof -
    obtain a b where ab: "fst e = (a, b)" by (cases "fst e")
    with that have "(a, b) \<in> fst ` set (edges_of (build_game_graph rows))" by force
    from build_game_graph_keys [OF this]
    have k: "a \<in> node_of_row ` set rows" "b \<in> node_of_row ` set rows" "edge_admitted a b"
      by simp_all
    from k(1,2) nyc have "city_group a = Some ''NYC'' \<longrightarrow> team a \<in> set target_teams"
      "city_group b = Some ''NYC'' \<longrightarrow> team b \<in> set target_teams"
      by (auto simp: node_of_row_def)
    from edge_admitted_domain [OF k(3) this] ab show ?thesis by simp
  qed
  with pipeline_returns [OF nyc] show ?thesis by blast
qed

theorem outside_team_is_absorbed_witness:
  "list_all (\<lambda>row. row_city_group row \<noteq> ''NYC'' \<or> Home row \<in> set [''Knicks'', ''Nets''])
     with_outsider
   \<and> rank_trips (find_all_valid_trips (build_game_graph with_outsider)) = Inr [(3, [trip_c])]
   \<and> list_all (\<lambda>node. team node \<in> set target_teams) trip_c"
proof -
  have w: "list_all (\<lambda>row. row_city_group row \<noteq> ''NYC'' \<or> Home row \<in> set [''Knicks'', ''Nets''])
      with_outsider" by code_simp
  then have h: "\<forall>row \<in> set with_outsider.
      row_city_group row = ''NYC'' \<longrightarrow> Home row \<in> set [''Knicks'', ''Nets'']"
    unfolding list_all_iff by blast
  have e: "rank_trips (find_all_valid_trips (build_game_graph with_outsider))
      = Inr [(3, [trip_c])]" by code_simp
  from outside_team_is_absorbed [OF h] e
  have "list_all (\<lambda>node. team node \<in> set target_teams) trip_c"
    by (simp add: list_all_iff)
  with w e show ?thesis by simp
qed

section \<open>Five games on five consecutive nights\<close>

text \<open>
  On the five teams played from north to south the southbound search crosses the hop from
  the Nets to the Knicks, whose edge carries the label \<open>southbound\<close>, and returns the trip
  of five nights, with score 3.
\<close>

lemma mirrored_nights_trip_found:
  "edge_direction (build_game_graph five_nights_mirrored)
       (node_of_row (game ''Nets'' 1)) (node_of_row (game ''Knicks'' 2)) = Some ''southbound''
   \<and> map node_of_row five_nights_mirrored
       \<in> set (find_all_valid_trips (build_game_graph five_nights_mirrored))
   \<and> calculate_travel_efficiency (map node_of_row five_nights_mirrored) = Inr 3"
  by code_simp

text \<open>
  C2, evaluated on the code. On the five games Wizards, 76ers, Knicks, Nets, Celtics played
  on five consecutive nights the trip through all five from south to north would have
  score 3, and every hop of it is a valid northbound transition on consecutive nights. But
  the edge from the Knicks game to the Nets game carries the label \<open>southbound\<close> only, the
  northbound search stops at the Knicks, and the search returns the single trip Wizards,
  76ers, Knicks: the trip of five nights is not found.
\<close>

theorem five_nights_forward_trip_missing:
  "calculate_travel_efficiency (map node_of_row five_nights) = Inr 3
   \<and> is_valid_geographic_transition (node_of_row (game ''Knicks'' 2))
       (node_of_row (game ''Nets'' 3)) ''northbound''
   \<and> edge_direction (build_game_graph five_nights)
       (node_of_row (game ''Knicks'' 2)) (node_of_row (game ''Nets'' 3)) = Some ''southbound''
   \<and> find_all_valid_trips (build_game_graph five_nights) = [trip_c]
   \<and> map node_of_row five_nights
       \<notin> set (find_all_valid_trips (build_game_graph five_nights))"
  by code_simp

section \<open>The keys of a built graph are pairwise different\<close>

lemma add_node_keys_distinct:
  "distinct (map node_key (nodes_of G)) \<Longrightarrow> distinct (map node_key (nodes_of (add_node G n)))"
  by (auto simp: add_node_def has_node_def node_eq_def)

lemma set_direction_edge_keys:
  "map (\<lambda>e. (node_key (fst (fst e)), node_key (snd (fst e)))) (set_direction u v d es)
     = (if (node_key u, node_key v)
            \<in> (\<lambda>e. (node_key (fst (fst e)), node_key (snd (fst e)))) ` set es
        then map (\<lambda>e. (node_key (fst (fst e)), node_key (snd (fst e)))) es
        else map (\<lambda>e. (node_key (fst (fst e)), node_key (snd (fst e)))) es
               @ [(node_key u, node_key v)])"
proof (induction es)
  case (Cons e es)
  obtain a b l where e: "e = ((a, b), l)" by (cases e) auto
  show ?case
  proof (cases "node_eq a u \<and> node_eq b v")
    case True
    then show ?thesis unfolding e by (auto simp: node_eq_def)
  next
    case False
    with Cons.IH show ?thesis unfolding e by (auto simp: node_eq_def)
  qed
qed simp

lemma add_edge_keys_distinct:
  assumes "digraph_keys_distinct G"
  shows "digraph_keys_distinct (add_edge G u v d)"
proof -
  have "distinct (map node_key (nodes_of (add_node (add_node G u) v)))"
    using assms by (simp add: digraph_keys_distinct_def add_node_keys_distinct)
  moreover have "distinct (map (\<lambda>e. (node_key (fst (fst e)), node_key (snd (fst e))))
      (set_direction u v d (edges_of G)))"
    using assms unfolding set_direction_edge_keys digraph_keys_distinct_def by simp
  ultimately show ?thesis
    by (simp add: digraph_keys_distinct_def add_edge_def Let_def edges_of_add_node)
qed

lemma add_edges_step_keys_distinct:
  "digraph_keys_distinct G \<Longrightarrow> digraph_keys_distinct (add_edges_step f t G)"
  by (simp add: add_edges_step_def Let_def add_edge_keys_distinct)

lemma build_game_graph_keys_distinct: "digraph_keys_distinct (build_game_graph rows)"
proof -
  have nodes: "digraph_keys_distinct (fold (\<lambda>n G. add_node G n) ns G)"
    if "digraph_keys_distinct G" for ns G
    using that
  proof (induction ns arbitrary: G)
    case (Cons n ns)
    have "digraph_keys_distinct (add_node G n)"
      using Cons.prems
      by (simp add: digraph_keys_distinct_def add_node_keys_distinct edges_of_add_node)
    from Cons.IH [OF this] show ?case by simp
  qed simp
  have inner: "digraph_keys_distinct (fold (add_edges_step f) ts G)"
    if "digraph_keys_distinct G" for f ts G
    using that by (induction ts arbitrary: G) (simp_all add: add_edges_step_keys_distinct)
  have outer: "digraph_keys_distinct (fold (\<lambda>f. fold (add_edges_step f) ns) fs G)"
    if "digraph_keys_distinct G" for ns fs G
    using that by (induction fs arbitrary: G) (simp_all add: inner)
  have "digraph_keys_distinct empty_graph"
    by (simp add: digraph_keys_distinct_def empty_graph_def)
  from outer [OF nodes [OF this]] show ?thesis
    by (simp add: build_game_graph_def add_edges_to_graph_def Let_def)
qed

section \<open>Each path is found once\<close>

lemma successors_distinct:
  assumes "digraph_keys_distinct G"
  shows "distinct (map node_key (successors G u))"
proof -
  let ?es = "filter (\<lambda>e. node_eq (fst (fst e)) u) (edges_of G)"
  have pairs: "distinct (map (\<lambda>e. (node_key (fst (fst e)), node_key (snd (fst e)))) ?es)"
    using assms unfolding digraph_keys_distinct_def by (simp add: distinct_map_filter)
  have from_u: "\<forall>e \<in> set ?es. node_key (fst (fst e)) = node_key u"
    by (simp add: node_eq_def)
  have "distinct (map (\<lambda>e. node_key (snd (fst e))) es)"
    if "distinct (map (\<lambda>e. (node_key (fst (fst e)), node_key (snd (fst e)))) es)"
      and "\<forall>e \<in> set es. node_key (fst (fst e)) = k" for es k
    using that
  proof (induction es)
    case (Cons e es)
    have "node_key (snd (fst e)) \<noteq> node_key (snd (fst e'))" if "e' \<in> set es" for e'
    proof
      assume "node_key (snd (fst e)) = node_key (snd (fst e'))"
      moreover from Cons.prems(2) that
      have "node_key (fst (fst e)) = node_key (fst (fst e'))" by simp
      ultimately have "(node_key (fst (fst e)), node_key (snd (fst e)))
          \<in> (\<lambda>e. (node_key (fst (fst e)), node_key (snd (fst e)))) ` set es"
        using that by (simp add: image_iff) blast
      with Cons.prems(1) show False by simp
    qed
    then have "node_key (snd (fst e)) \<notin> (\<lambda>e. node_key (snd (fst e))) ` set es"
      by blast
    moreover from Cons.IH Cons.prems have "distinct (map (\<lambda>e. node_key (snd (fst e))) es)"
      by simp
    ultimately show ?case by simp
  qed simp
  from this [OF pairs from_u]
  have "distinct (map (\<lambda>e. node_key (snd (fst e))) ?es)" .
  moreover have "map node_key (successors G u) = map (\<lambda>e. node_key (snd (fst e))) ?es"
    by (simp add: successors_def)
  ultimately show ?thesis by simp
qed

lemma distinct_concat_tagged:
  assumes "distinct (map k xs)"
    and "\<And>x. x \<in> set xs \<Longrightarrow> distinct (f x)"
    and "\<And>x t. x \<in> set xs \<Longrightarrow> t \<in> set (f x) \<Longrightarrow> tag t = k x"
  shows "distinct (concat (map f xs))"
  using assms
proof (induction xs)
  case (Cons x xs)
  have "set (f x) \<inter> set (concat (map f xs)) = {}"
  proof (rule ccontr)
    assume "set (f x) \<inter> set (concat (map f xs)) \<noteq> {}"
    then obtain t y where t: "t \<in> set (f x)" "y \<in> set xs" "t \<in> set (f y)" by auto
    from Cons.prems(3) [of x t] Cons.prems(3) [of y t] t have "k x = k y" by simp
    with Cons.prems(1) t(2) show False by auto
  qed
  moreover have "distinct (concat (map f xs))"
    using Cons.prems by (intro Cons.IH) auto
  ultimately show ?case using Cons.prems(2) [of x] by simp
qed simp

lemma dfs_southbound_prefix:
  "t \<in> set (dfs_southbound G c V p) \<Longrightarrow> \<exists>r. t = p @ c # r"
proof (induction G c V p rule: dfs_southbound.induct)
  case (1 G c V p)
  from "1.prems" dfs_southbound_mem [of t G c V p]
  consider (here) "t = p @ [c]"
    | (deeper) x where "length (p @ [c]) < 5" "x \<in> set (successors G c)"
      "edge_direction G c x = Some ''southbound''" "team x \<notin> V \<union> {team c}"
      "t \<in> set (dfs_southbound G x (V \<union> {team c}) (p @ [c]))"
    by blast
  then show ?case
  proof cases
    case here
    then show ?thesis by simp
  next
    case deeper
    from "1.IH" [OF deeper] show ?thesis by auto
  qed
qed

lemma dfs_northbound_prefix:
  "t \<in> set (dfs_northbound G c V p) \<Longrightarrow> \<exists>r. t = p @ c # r"
proof (induction G c V p rule: dfs_northbound.induct)
  case (1 G c V p)
  from "1.prems" dfs_northbound_mem [of t G c V p]
  consider (here) "t = p @ [c]"
    | (deeper) x where "length (p @ [c]) < 5" "x \<in> set (successors G c)"
      "edge_direction G c x = Some ''northbound''" "team x \<notin> V \<union> {team c}"
      "t \<in> set (dfs_northbound G x (V \<union> {team c}) (p @ [c]))"
    by blast
  then show ?case
  proof cases
    case here
    then show ?thesis by simp
  next
    case deeper
    from "1.IH" [OF deeper] show ?thesis by auto
  qed
qed

lemma dfs_southbound_distinct:
  assumes "digraph_keys_distinct G"
  shows "distinct (dfs_southbound G c V p)"
  using assms
proof (induction G c V p rule: dfs_southbound.induct)
  case (1 G c V p)
  let ?q = "p @ [c]"
  let ?f = "\<lambda>neighbor.
    if edge_direction G c neighbor = Some ''southbound''
    then (if team neighbor \<notin> V \<union> {team c}
          then dfs_southbound G neighbor (V \<union> {team c}) ?q else [])
    else []"
  have tagged: "node_key (t ! length ?q) = node_key x \<and> t \<noteq> ?q"
    if "t \<in> set (?f x)" for x t
  proof -
    from that have "t \<in> set (dfs_southbound G x (V \<union> {team c}) ?q)"
      by (auto split: if_splits)
    from dfs_southbound_prefix [OF this] obtain r where r: "t = ?q @ x # r" by blast
    have "t ! length ?q = x" unfolding r by (rule nth_append_length)
    moreover from r have "t \<noteq> ?q" by simp
    ultimately show ?thesis by simp
  qed
  have children: "distinct (concat (map ?f (successors G c)))" if "length ?q < 5"
  proof (rule distinct_concat_tagged [where k = node_key and tag = "\<lambda>t. node_key (t ! length ?q)"])
    show "distinct (map node_key (successors G c))"
      by (rule successors_distinct [OF "1.prems"])
  next
    fix x assume "x \<in> set (successors G c)"
    with "1.IH" [OF that _ _ _ "1.prems"] show "distinct (?f x)" by simp
  next
    fix x t assume "t \<in> set (?f x)"
    with tagged show "node_key (t ! length ?q) = node_key x" by blast
  qed
  have apart: "?q \<notin> set (concat (map ?f (successors G c)))"
    using tagged by auto
  let ?here = "if team c = ''Wizards'' \<and> 3 \<le> length ?q \<and> length ?q \<le> 5 then [?q] else []"
  let ?rest = "if length ?q < 5 then concat (map ?f (successors G c)) else []"
  have eq: "dfs_southbound G c V p = ?here @ ?rest"
    by (rule dfs_southbound.simps)
  have d1: "distinct ?here" by simp
  have d2: "distinct ?rest" using children by (cases "length ?q < 5") simp_all
  have d3: "set ?here \<inter> set ?rest = {}"
  proof -
    have "set ?here \<subseteq> {?q}" by auto
    moreover have "?q \<notin> set ?rest" using apart by (cases "length ?q < 5") simp_all
    ultimately show ?thesis by blast
  qed
  from d1 d2 d3 show ?case unfolding eq distinct_append by blast
qed

lemma find_southbound_trips_distinct:
  assumes "digraph_keys_distinct G"
  shows "distinct (find_southbound_trips G w)"
  unfolding find_southbound_trips_def
proof (rule distinct_concat_tagged [where k = node_key and tag = "\<lambda>t. node_key (hd t)"])
  show "distinct (map node_key (nodes_of G))"
    using assms by (simp add: digraph_keys_distinct_def)
next
  fix s
  show "distinct (if team s \<noteq> ''Wizards'' then dfs_southbound G s {} [] else [])"
    by (simp add: dfs_southbound_distinct [OF assms])
next
  fix s t
  assume "t \<in> set (if team s \<noteq> ''Wizards'' then dfs_southbound G s {} [] else [])"
  then have "t \<in> set (dfs_southbound G s {} [])" by (simp split: if_splits)
  from dfs_southbound_prefix [OF this] show "node_key (hd t) = node_key s" by auto
qed

lemma count_list_distinct: "distinct xs \<Longrightarrow> x \<in> set xs \<Longrightarrow> count_list xs x = 1"
  by (induction xs) (auto simp: count_list_0_iff)

text \<open>
  C10. The southbound search does not use the Wizards game it is called for: called for
  any two nodes it returns the same list. In a graph whose dictionaries have pairwise
  different keys, every trip of that list therefore occurs in the result of
  \<open>find_all_valid_trips\<close> once for each Wizards node of the graph, and no more.
\<close>

theorem southbound_search_ignores_anchor:
  assumes "digraph_keys_distinct G"
  shows "find_southbound_trips G a1 = find_southbound_trips G a2
       \<and> (\<forall>t \<in> set (find_southbound_trips G a1).
             count_list (find_all_valid_trips G) t
               = length (filter (\<lambda>node. team node = ''Wizards'') (nodes_of G)))"
proof -
  have same: "find_southbound_trips G a = find_southbound_trips G b" for a b
    by (simp add: find_southbound_trips_def)
  have count: "count_list (find_all_valid_trips G) t
                 = length (filter (\<lambda>node. team node = ''Wizards'') (nodes_of G))"
    if t: "t \<in> set (find_southbound_trips G a1)" for t
  proof -
    from find_southbound_trips_sound [OF t] have hd: "team (hd t) \<noteq> ''Wizards''" by simp
    have one: "count_list (find_northbound_trips G w @ find_southbound_trips G w) t = 1"
      if "team w = ''Wizards''" for w
    proof -
      from find_northbound_trips_sound [of t G w] hd that
      have "t \<notin> set (find_northbound_trips G w)" by auto
      then have "count_list (find_northbound_trips G w) t = 0" by (simp add: count_list_0_iff)
      moreover have "count_list (find_southbound_trips G w) t = 1"
        using t same [of w a1]
        by (simp add: count_list_distinct find_southbound_trips_distinct [OF assms])
      ultimately show ?thesis by simp
    qed
    have "count_list (concat (map (\<lambda>w. find_northbound_trips G w @ find_southbound_trips G w)
        ws)) t = length ws" if "\<forall>w \<in> set ws. team w = ''Wizards''" for ws
      using that
    proof (induction ws)
      case (Cons w ws)
      then show ?case using one [of w] by simp
    qed simp
    from this [of "filter (\<lambda>node. team node = ''Wizards'') (nodes_of G)"]
    show ?thesis by (simp add: find_all_valid_trips_def)
  qed
  from same [of a1 a2] count show ?thesis by blast
qed

theorem southbound_search_ignores_anchor_witness:
  "digraph_keys_distinct (build_game_graph two_anchors)
   \<and> trip_south \<in> set (find_southbound_trips (build_game_graph two_anchors)
        (node_of_row (game ''Wizards'' 2)))
   \<and> find_southbound_trips (build_game_graph two_anchors) (node_of_row (game ''Wizards'' 2))
       = find_southbound_trips (build_game_graph two_anchors) (node_of_row (game ''Wizards'' 5))
   \<and> count_list (find_all_valid_trips (build_game_graph two_anchors)) trip_south = 2"
proof -
  have inv: "digraph_keys_distinct (build_game_graph two_anchors)"
    by (rule build_game_graph_keys_distinct)
  have member: "trip_south \<in> set (find_southbound_trips (build_game_graph two_anchors)
      (node_of_row (game ''Wizards'' 2)))" by code_simp
  have k: "length (filter (\<lambda>node. team node = ''Wizards'')
      (nodes_of (build_game_graph two_anchors))) = 2" by code_simp
  note r = southbound_search_ignores_anchor [OF inv, of "node_of_row (game ''Wizards'' 2)"
      "node_of_row (game ''Wizards'' 5)"]
  from r [THEN conjunct2] member k
  have "count_list (find_all_valid_trips (build_game_graph two_anchors)) trip_south = 2"
    by simp
  with inv member r [THEN conjunct1] show ?thesis by (intro conjI)
qed

section \<open>The ranker and the order of its input\<close>

lemma trip_key_teams: "trip_key s = trip_key t \<Longrightarrow> map team s = map team t"
proof -
  assume "trip_key s = trip_key t"
  then have "map fst (trip_key s) = map fst (trip_key t)" by simp
  then show ?thesis by (simp add: trip_key_def comp_def)
qed

lemma trip_key_length: "length (trip_key t) = length t"
  by (simp add: trip_key_def)

lemma efficiency_by_key:
  "trip_key s = trip_key t \<Longrightarrow> calculate_travel_efficiency s = calculate_travel_efficiency t"
  by (rule calculate_travel_efficiency_teams [OF trip_key_teams])

lemma unique_keys_permuted:
  assumes "mset ts = mset ts'"
  shows "mset (map trip_key (unique_loop ts {} [])) = mset (map trip_key (unique_loop ts' {} []))"
proof -
  from assms have "set ts = set ts'" by (rule mset_eq_setD)
  then have "set (map trip_key (unique_loop ts {} [])) = set (map trip_key (unique_loop ts' {} []))"
    using unique_loop_keys [of ts "{}"] unique_loop_keys [of ts' "{}"] by simp
  with set_eq_iff_mset_eq_distinct [OF unique_loop_distinct unique_loop_distinct]
  show ?thesis by blast
qed

lemma group_keys:
  "mset (map trip_key (sort_key f (filter (\<lambda>t. length t = n) us)))
     = filter_mset (\<lambda>k. length k = n) (mset (map trip_key us))"
proof -
  have "mset (map trip_key (sort_key f (filter (\<lambda>t. length t = n) us)))
          = image_mset trip_key (filter_mset (\<lambda>t. length (trip_key t) = n) (mset us))"
    by (simp add: trip_key_length)
  also have "\<dots> = filter_mset (\<lambda>k. length k = n) (image_mset trip_key (mset us))"
    by (rule image_mset_filter_mset_swap)
  finally show ?thesis by simp
qed

text \<open>
  C5, as stated, fails: two trips of equal length and equal score come out in the order
  in which they went in.
\<close>

theorem permuted_input_counterexample:
  "mset [trip_a, trip_c] = mset [trip_c, trip_a]
   \<and> rank_trips [trip_a, trip_c] = Inr [(3, [trip_a, trip_c])]
   \<and> rank_trips [trip_c, trip_a] = Inr [(3, [trip_c, trip_a])]
   \<and> [(3::nat, [trip_a, trip_c])] \<noteq> [(3, [trip_c, trip_a])]"
proof -
  have "mset [trip_a, trip_c] = mset [trip_c, trip_a]" by (simp add: add_mset_commute)
  moreover have "rank_trips [trip_a, trip_c] = Inr [(3, [trip_a, trip_c])]" by code_simp
  moreover have "rank_trips [trip_c, trip_a] = Inr [(3, [trip_c, trip_a])]" by code_simp
  moreover have "[(3::nat, [trip_a, trip_c])] \<noteq> [(3, [trip_c, trip_a])]" by code_simp
  ultimately show ?thesis by (intro conjI)
qed

lemma rank_trips_keys:
  assumes "rank_trips ts = Inr m"
  shows "fst ` set m = length ` set (unique_loop ts {} [])"
proof -
  have "map fst (map (\<lambda>(n, g). (n, f g)) d) = map fst d"
    for f :: "trip list \<Rightarrow> trip list" and d :: "(nat \<times> trip list) list"
    by (induction d) auto
  then have "fst ` set (map (\<lambda>(n, g). (n, f g)) d) = fst ` set d"
    for f :: "trip list \<Rightarrow> trip list" and d :: "(nat \<times> trip list) list"
    by (metis set_map)
  with assms keys_group_by_length [of "unique_loop ts {} []"] show ?thesis
    unfolding rank_trips_iff by simp
qed

lemma sorted_mset_unique:
  fixes xs ys :: "nat list"
  assumes "mset ys = mset xs" and "sorted ys" and "sorted xs"
  shows "ys = xs"
  using properties_for_sort [OF assms(1,2)] sorted_sort_id [OF assms(3)] by simp

lemma efficiency_by_key_function:
  "\<exists>e. \<forall>t. efficiency t = e (trip_key t)"
proof -
  let ?node = "\<lambda>(tm, d). \<lparr>team = tm, date = d, opponent = [], venue = [], city_group = None\<rparr>"
  have by_key: "efficiency t = efficiency (map ?node (trip_key t))" for t
  proof -
    have "trip_key (map ?node (trip_key t)) = trip_key t"
      by (simp add: trip_key_def comp_def)
    from efficiency_by_key [OF this] show ?thesis by (simp add: efficiency_def)
  qed
  show ?thesis
  proof (rule exI [where x = "\<lambda>k. efficiency (map ?node k)"], rule allI)
    fix t
    show "efficiency t = (\<lambda>k. efficiency (map ?node k)) (trip_key t)"
      by (rule by_key)
  qed
qed

lemma permuted_input_returns:
  assumes "mset ts = mset ts'" and "rank_trips ts = Inr m"
  shows "rank_trips ts'
           = Inr (map (\<lambda>(n, g). (n, sort_key efficiency g))
               (group_by_length (unique_loop ts' {} [])))"
proof -
  let ?U = "unique_loop ts {} []" and ?U' = "unique_loop ts' {} []"
  from assms(1) have "set ts = set ts'" by (rule mset_eq_setD)
  then have Kset: "trip_key ` set ?U' = trip_key ` set ?U"
    unfolding unique_loop_keys by simp
  have "\<exists>k. calculate_travel_efficiency t = Inr k" if "t \<in> set ?U'" for t
  proof -
    from that have "trip_key t \<in> trip_key ` set ?U" unfolding Kset [symmetric] by (rule imageI)
    then obtain u where u: "u \<in> set ?U" "trip_key u = trip_key t" by auto
    from rank_trips_defined [OF assms(2) u(1)] efficiency_by_key [OF u(2)]
    show ?thesis by simp
  qed
  then show ?thesis unfolding rank_trips_iff by simp
qed

lemma permuted_group:
  assumes "mset ts = mset ts'" and "rank_trips ts = Inr m" and "rank_trips ts' = Inr m'"
  shows "mset (map trip_key (group_of m' n)) = mset (map trip_key (group_of m n))
       \<and> map calculate_travel_efficiency (group_of m' n)
           = map calculate_travel_efficiency (group_of m n)"
proof -
  let ?U = "unique_loop ts {} []" and ?U' = "unique_loop ts' {} []"
  let ?g = "group_of m n" and ?g' = "group_of m' n"
  note K = unique_keys_permuted [OF assms(1)]
  have g: "?g = sort_key efficiency (filter (\<lambda>t. length t = n) ?U)"
    by (rule group_of_rank_trips [OF assms(2)])
  have g': "?g' = sort_key efficiency (filter (\<lambda>t. length t = n) ?U')"
    by (rule group_of_rank_trips [OF assms(3)])
  have ks: "mset (map trip_key ?g') = mset (map trip_key ?g)"
    unfolding g g' group_keys K ..
  from efficiency_by_key_function obtain e where e: "\<And>t. efficiency t = e (trip_key t)"
    by blast
  have ms: "mset (map efficiency V) = image_mset e (mset (map trip_key V))" for V :: "trip list"
  proof -
    have "map efficiency V = map e (map trip_key V)" by (simp add: e)
    then have "mset (map efficiency V) = mset (map e (map trip_key V))" by (rule arg_cong)
    then show ?thesis by (simp only: mset_map)
  qed
  have "mset (map efficiency ?g') = mset (map efficiency ?g)" unfolding ms ks ..
  moreover have "sorted (map efficiency ?g')" unfolding g' by (rule sorted_sort_key)
  moreover have "sorted (map efficiency ?g)" unfolding g by (rule sorted_sort_key)
  ultimately have es: "map efficiency ?g' = map efficiency ?g"
    by (rule sorted_mset_unique)
  have "map calculate_travel_efficiency ?g = map Inr (map efficiency ?g)"
    using rank_trips_defined [OF assms(2)] unfolding g by simp
  moreover have "map calculate_travel_efficiency ?g' = map Inr (map efficiency ?g')"
    using rank_trips_defined [OF assms(3)] unfolding g' by simp
  ultimately have "map calculate_travel_efficiency ?g' = map calculate_travel_efficiency ?g"
    unfolding es by simp
  with ks show ?thesis by simp
qed

text \<open>
  C5, amended. The ranker is a function of its input list, so a second run on the same
  list gives the same output. When it returns on a list, it returns on every permutation of
  the list, with the same lengths as keys, and in every group the same (team, date)
  sequences and the same ascending sequence of scores. Which of two trips of equal score
  comes first, and which of several trips with one (team, date) sequence survives, follows
  the order of the input.
\<close>

theorem ranking_of_permuted_input:
  assumes "mset ts = mset ts'" and "rank_trips ts = Inr m"
  shows "\<exists>m'. rank_trips ts' = Inr m' \<and> (ts' = ts \<longrightarrow> m' = m)
           \<and> set (map fst m') = set (map fst m)
           \<and> (\<forall>n. mset (map trip_key (group_of m' n)) = mset (map trip_key (group_of m n))
                  \<and> map calculate_travel_efficiency (group_of m' n)
                      = map calculate_travel_efficiency (group_of m n))"
proof -
  let ?U = "unique_loop ts {} []" and ?U' = "unique_loop ts' {} []"
  from permuted_input_returns [OF assms] obtain m' where m': "rank_trips ts' = Inr m'"
    by blast
  have same: "ts' = ts \<longrightarrow> m' = m" using m' assms(2) by auto
  have "length ` set V = length ` (trip_key ` set V)" for V :: "trip list"
    by (simp add: image_image trip_key_length)
  moreover have "trip_key ` set ?U' = trip_key ` set ?U"
    using mset_eq_setD [OF assms(1)] unfolding unique_loop_keys by simp
  ultimately have "length ` set ?U' = length ` set ?U" by simp
  then have keys: "set (map fst m') = set (map fst m)"
    using rank_trips_keys [OF m'] rank_trips_keys [OF assms(2)] by simp
  from m' same keys permuted_group [OF assms m'] show ?thesis by blast
qed

theorem ranking_of_permuted_input_witness:
  "mset [trip_a, trip_c] = mset [trip_c, trip_a]
   \<and> rank_trips [trip_a, trip_c] = Inr [(3, [trip_a, trip_c])]
   \<and> rank_trips [trip_c, trip_a] = Inr [(3, [trip_c, trip_a])]
   \<and> mset (map trip_key (group_of [(3, [trip_c, trip_a])] 3))
       = mset (map trip_key (group_of [(3, [trip_a, trip_c])] 3))
   \<and> map calculate_travel_efficiency (group_of [(3, [trip_c, trip_a])] 3)
       = map calculate_travel_efficiency (group_of [(3, [trip_a, trip_c])] 3)"
proof -
  have p: "mset [trip_a, trip_c] = mset [trip_c, trip_a]" by (simp add: add_mset_commute)
  have r: "rank_trips [trip_a, trip_c] = Inr [(3, [trip_a, trip_c])]" by code_simp
  have r': "rank_trips [trip_c, trip_a] = Inr [(3, [trip_c, trip_a])]" by code_simp
  from ranking_of_permuted_input [OF p r] obtain m'
    where m': "rank_trips [trip_c, trip_a] = Inr m'"
      and g: "\<forall>n. mset (map trip_key (group_of m' n))
                  = mset (map trip_key (group_of [(3, [trip_a, trip_c])] n))
                \<and> map calculate_travel_efficiency (group_of m' n)
                  = map calculate_travel_efficiency (group_of [(3, [trip_a, trip_c])] n)"
    by blast
  from m' r' have "m' = [(3, [trip_c, trip_a])]" by simp
  note g3 = g [unfolded this, THEN spec, of 3]
  from p r r' g3 [THEN conjunct1] g3 [THEN conjunct2] show ?thesis by (intro conjI)
qed

end
